theory Spec2Isabelle
  imports Main "HOL-Library.Word" "HOL-Library.Signed_Division"
begin

unbundle bit_operations_syntax

section \<open>Machine types\<close>

text \<open>
  The Go types of the package: \<open>byte\<close>/\<open>uint8\<close>, \<open>uint16\<close>, \<open>uint32\<close> and the
  signed \<open>int64\<close>. Go's \<open>int\<close> is taken at its 64-bit width (amd64, arm64), so the
  arithmetic of \<open>NewWriter\<close>, of the frame counter and of \<open>GetSampleCount\<close> wraps at
  \<open>2 ^ 64\<close>; signed values are read with \<open>sint\<close>. A \<open>[4]byte\<close> array is a value of
  four bytes, never shorter or longer.
\<close>

type_synonym byte = "8 word"
type_synonym uint16 = "16 word"
type_synonym uint32 = "32 word"
type_synonym int64 = "64 word"

datatype byte4 = Byte4 byte byte byte byte

fun byte4_at :: "byte4 \<Rightarrow> nat \<Rightarrow> byte" where
  "byte4_at (Byte4 a b c d) j = [a, b, c, d] ! j"

fun byte4_bytes :: "byte4 \<Rightarrow> byte list" where
  "byte4_bytes (Byte4 a b c d) = [a, b, c, d]"

definition byte4_of :: "byte list \<Rightarrow> byte4" where
  "byte4_of bs = Byte4 (bs ! 0) (bs ! 1) (bs ! 2) (bs ! 3)"

text \<open>Go's \<open>/\<close> on \<open>int\<close>: the quotient truncated towards zero.\<close>

definition int_quo :: "int64 \<Rightarrow> int64 \<Rightarrow> int64" where
  "int_quo a b = word_of_int (sint a sdiv sint b)"

section \<open>Errors\<close>

text \<open>
  Every error of the package is a formatted message; each constructor stands for one
  format string of the source and carries the values the message prints. Run-time panics
  and the errors of the streams are values of the same type.
  \<^item> \<open>EOF\<close>, \<open>ErrUnexpectedEOF\<close>: what \<open>io.ReadFull\<close> returns when the stream ends;
  \<^item> \<open>ErrSinkFull\<close>: the failure of the caller's \<open>io.Writer\<close>;
  \<^item> \<open>PanicByte4Cmp\<close>, \<open>PanicUnknownBits\<close>, \<open>PanicDivideByZero\<close>: the two \<open>panic\<close>
    calls of reader.go and the run-time panic of an integer division by zero;
  \<^item> \<open>UnexpectedRiffID\<close> ... \<open>OnlyBitsSupported\<close>: the eight errors of \<open>Validate\<close>,
    the first six with the wanted and the found value, the last two with the found value
    (the wanted ones are part of the message text);
  \<^item> \<open>DecodeHeaderFailed\<close>, \<open>ValidateFailed\<close>: the two wrappers of \<open>NewReader\<close>;
  \<^item> \<open>ReadFloatBits\<close> ("unexpected BitsPerSample in ReadRawFloat: want 32, got ..."),
    \<open>ReadFloatFailed\<close>: the errors of \<open>ReadFloat\<close>;
  \<^item> \<open>WriteHeaderFailed\<close>: the error of \<open>NewWriter\<close>;
  \<^item> \<open>ChannelCountMismatch\<close> ("number of samples != channels ...: want, got"),
    \<open>FrameBudgetExceeded\<close> ("overflow error: attempting to write too many samples:
    already wrote ..."), \<open>UnrecognizedBits\<close> ("unrecognized bitsPerSample"),
    \<open>WriteIntFailed\<close>, \<open>Only32BitFloats\<close>, \<open>WriteFloatFailed\<close>: the errors of
    \<open>WriteInt\<close> and \<open>WriteFloat\<close>.
\<close>

datatype error =
    EOF
  | ErrUnexpectedEOF
  | ErrSinkFull
  | PanicByte4Cmp string
  | PanicUnknownBits uint16
  | PanicDivideByZero
  | UnexpectedRiffID string byte4
  | UnexpectedRiffType string byte4
  | UnexpectedFmtChunkId string byte4
  | UnexpectedDataChunkId string byte4
  | UnexpectedFmtChunkSize uint32 uint32
  | UnexpectedDataSize uint32 uint32
  | OnlyUncompressedPCM uint16
  | OnlyBitsSupported uint16
  | DecodeHeaderFailed error
  | ValidateFailed error
  | ReadFloatBits uint16
  | ReadFloatFailed error
  | WriteHeaderFailed error
  | ChannelCountMismatch uint16 nat
  | FrameBudgetExceeded int64
  | UnrecognizedBits uint16
  | WriteIntFailed error
  | Only32BitFloats uint16
  | WriteFloatFailed error

section \<open>The header (reader.go)\<close>

record Header =
  RiffID :: byte4
  DataSize :: uint32
  RiffType :: byte4
  FmtChunkID :: byte4
  FmtChunkSize :: uint32
  AudioFmt :: uint16
  Channels :: uint16
  SamplesPerSec :: uint32
  BytesPerSec :: uint32
  BlockAlign :: uint16
  BitsPerSample :: uint16
  DataChunkID :: byte4
  DataChunkSize :: uint32

text \<open>
  \<open>byte4Cmp\<close>: panics unless the string has four bytes, then compares index by index,
  \<open>j = 0, 1, 2, 3\<close>, returning false at the first difference.
\<close>

function byte4Cmp_loop :: "byte4 \<Rightarrow> string \<Rightarrow> nat \<Rightarrow> bool" where
  "byte4Cmp_loop b s j =
     (if j < 4 then
        (if byte4_at b j \<noteq> of_char (s ! j) then False else byte4Cmp_loop b s (j + 1))
      else True)"
  by pat_completeness auto
termination
  by (relation "measure (\<lambda>(b, s, j). 4 - j)") auto

declare byte4Cmp_loop.simps [simp del]

definition byte4Cmp :: "byte4 \<Rightarrow> string \<Rightarrow> error + bool" where
  "byte4Cmp b s =
     (if length s \<noteq> 4 then Inl (PanicByte4Cmp s) else Inr (byte4Cmp_loop b s 0))"

text \<open>
  \<open>Validate\<close>: \<open>None\<close> is Go's \<open>nil\<close>. The checks stand in the order of the source;
  each returns at once. A panic of \<open>byte4Cmp\<close> would leave the function as well.
\<close>

definition Validate :: "Header \<Rightarrow> error option" where
  "Validate h =
     (case byte4Cmp (RiffID h) ''RIFF'' of Inl p \<Rightarrow> Some p | Inr c1 \<Rightarrow>
     (if \<not> c1 then Some (UnexpectedRiffID ''RIFF'' (RiffID h)) else
     (case byte4Cmp (RiffType h) ''WAVE'' of Inl p \<Rightarrow> Some p | Inr c2 \<Rightarrow>
     (if \<not> c2 then Some (UnexpectedRiffType ''WAVE'' (RiffType h)) else
     (case byte4Cmp (FmtChunkID h) ''fmt '' of Inl p \<Rightarrow> Some p | Inr c3 \<Rightarrow>
     (if \<not> c3 then Some (UnexpectedFmtChunkId ''fmt '' (FmtChunkID h)) else
     (case byte4Cmp (DataChunkID h) ''data'' of Inl p \<Rightarrow> Some p | Inr c4 \<Rightarrow>
     (if \<not> c4 then Some (UnexpectedDataChunkId ''data'' (DataChunkID h)) else
      if FmtChunkSize h \<noteq> 16 then Some (UnexpectedFmtChunkSize 16 (FmtChunkSize h)) else
      if DataSize h \<noteq> 36 + DataChunkSize h
        then Some (UnexpectedDataSize (36 + DataChunkSize h) (DataSize h)) else
      if AudioFmt h \<noteq> 1 then Some (OnlyUncompressedPCM (AudioFmt h)) else
      if BitsPerSample h \<noteq> 8 \<and> BitsPerSample h \<noteq> 16 \<and> BitsPerSample h \<noteq> 24
           \<and> BitsPerSample h \<noteq> 32
        then Some (OnlyBitsSupported (BitsPerSample h)) else
      None))))))))"

text \<open>
  \<open>GetSampleCount\<close>: \<open>int(h.DataChunkSize) / int(h.Channels*(h.BitsPerSample/8))\<close>.
  The product and the inner quotient are \<open>uint16\<close> operations; both conversions to
  \<open>int\<close> extend with zeros; a zero divisor is the run-time panic.
\<close>

definition GetSampleCount :: "Header \<Rightarrow> error + int64" where
  "GetSampleCount h =
     (let d = (ucast (Channels h * (BitsPerSample h div 8)) :: int64) in
      if d = 0 then Inl PanicDivideByZero
      else Inr (int_quo (ucast (DataChunkSize h)) d))"

definition GetBitsPerSample :: "Header \<Rightarrow> int64" where
  "GetBitsPerSample h = ucast (BitsPerSample h)"

definition GetChannels :: "Header \<Rightarrow> int64" where
  "GetChannels h = ucast (Channels h)"

definition GetSamplesPerSec :: "Header \<Rightarrow> int64" where
  "GetSamplesPerSec h = ucast (SamplesPerSec h)"

section \<open>Streams and \<open>encoding/binary\<close>\<close>

text \<open>
  The reader's \<open>io.Reader\<close> and the writer's \<open>io.Writer\<close> belong to the caller; a
  \<open>Reader\<close> or \<open>Writer\<close> holds a reference to one. A reference is a number, and the
  streams live in a store indexed by it. An input stream is the bytes not yet read (a
  \<open>bytes.Reader\<close>). An output stream is the bytes written so far and the room left
  (\<open>None\<close>: unbounded, a \<open>bytes.Buffer\<close>; \<open>Some k\<close>: the write that passes \<open>k\<close>
  bytes stores what fits and fails).
\<close>

type_synonym sources = "nat \<Rightarrow> byte list"

record sink =
  written :: "byte list"
  room :: "nat option"

type_synonym sinks = "nat \<Rightarrow> sink"

text \<open>
  \<open>io.ReadFull\<close> for \<open>n\<close> bytes: all of them, or \<open>EOF\<close> when no byte is left, or
  \<open>ErrUnexpectedEOF\<close> when fewer than \<open>n\<close> are left (they are consumed). This is the
  read that \<open>binary.Read\<close> does for a value of \<open>n\<close> bytes.
\<close>

definition ReadFull :: "nat \<Rightarrow> byte list \<Rightarrow> (error + byte list) \<times> byte list" where
  "ReadFull n s =
     (if n \<le> length s then (Inr (take n s), drop n s)
      else if s = [] then (Inl EOF, [])
      else (Inl ErrUnexpectedEOF, []))"

text \<open>The single \<open>w.Write(bs)\<close> that \<open>binary.Write\<close> ends with.\<close>

definition sink_Write :: "sink \<Rightarrow> byte list \<Rightarrow> error option \<times> sink" where
  "sink_Write s p =
     (case room s of
        None \<Rightarrow> (None, \<lparr>written = written s @ p, room = None\<rparr>)
      | Some k \<Rightarrow>
          if length p \<le> k then (None, \<lparr>written = written s @ p, room = Some (k - length p)\<rparr>)
          else (Some ErrSinkFull, \<lparr>written = written s @ take k p, room = Some 0\<rparr>))"

text \<open>\<open>binary.LittleEndian\<close>: \<open>Uint16\<close>, \<open>Uint32\<close>, \<open>PutUint16\<close>, \<open>PutUint32\<close>.\<close>

definition Uint16 :: "byte list \<Rightarrow> uint16" where
  "Uint16 b = ucast (b ! 0) OR push_bit 8 (ucast (b ! 1))"

definition Uint32 :: "byte list \<Rightarrow> uint32" where
  "Uint32 b = ucast (b ! 0) OR push_bit 8 (ucast (b ! 1)) OR push_bit 16 (ucast (b ! 2))
     OR push_bit 24 (ucast (b ! 3))"

definition PutUint16 :: "uint16 \<Rightarrow> byte list" where
  "PutUint16 v = [ucast v, ucast (drop_bit 8 v)]"

definition PutUint32 :: "uint32 \<Rightarrow> byte list" where
  "PutUint32 v = [ucast v, ucast (drop_bit 8 v), ucast (drop_bit 16 v), ucast (drop_bit 24 v)]"

text \<open>
  \<open>binary.Write\<close> and \<open>binary.Read\<close> of a \<open>Header\<close>: the fields in the order of the
  struct, each little-endian, 44 bytes.
\<close>

definition encode_Header :: "Header \<Rightarrow> byte list" where
  "encode_Header h =
     byte4_bytes (RiffID h) @ PutUint32 (DataSize h) @ byte4_bytes (RiffType h)
     @ byte4_bytes (FmtChunkID h) @ PutUint32 (FmtChunkSize h) @ PutUint16 (AudioFmt h)
     @ PutUint16 (Channels h) @ PutUint32 (SamplesPerSec h) @ PutUint32 (BytesPerSec h)
     @ PutUint16 (BlockAlign h) @ PutUint16 (BitsPerSample h) @ byte4_bytes (DataChunkID h)
     @ PutUint32 (DataChunkSize h)"

definition decode_Header :: "byte list \<Rightarrow> Header" where
  "decode_Header bs =
     \<lparr>RiffID = byte4_of (take 4 bs),
      DataSize = Uint32 (take 4 (drop 4 bs)),
      RiffType = byte4_of (take 4 (drop 8 bs)),
      FmtChunkID = byte4_of (take 4 (drop 12 bs)),
      FmtChunkSize = Uint32 (take 4 (drop 16 bs)),
      AudioFmt = Uint16 (take 2 (drop 20 bs)),
      Channels = Uint16 (take 2 (drop 22 bs)),
      SamplesPerSec = Uint32 (take 4 (drop 24 bs)),
      BytesPerSec = Uint32 (take 4 (drop 28 bs)),
      BlockAlign = Uint16 (take 2 (drop 32 bs)),
      BitsPerSample = Uint16 (take 2 (drop 34 bs)),
      DataChunkID = byte4_of (take 4 (drop 36 bs)),
      DataChunkSize = Uint32 (take 4 (drop 40 bs))\<rparr>"

text \<open>\<open>binary.Read\<close> into a \<open>[]float32\<close> of \<open>n\<close> elements: the bit patterns.\<close>

definition decode_uint32s :: "nat \<Rightarrow> byte list \<Rightarrow> uint32 list" where
  "decode_uint32s n bs = map (\<lambda>j. Uint32 (take 4 (drop (4 * j) bs))) [0..<n]"

section \<open>The reader (reader.go)\<close>

record Reader =
  Reader_R :: nat
  Reader_H :: Header

definition NewReader :: "nat \<Rightarrow> sources \<Rightarrow> (error + Reader) \<times> sources" where
  "NewReader r srcs =
     (case ReadFull 44 (srcs r) of
        (Inl err, rest) \<Rightarrow> (Inl (DecodeHeaderFailed err), srcs(r := rest))
      | (Inr bs, rest) \<Rightarrow>
          (case Validate (decode_Header bs) of
             Some err \<Rightarrow> (Inl (ValidateFailed err), srcs(r := rest))
           | None \<Rightarrow> (Inr \<lparr>Reader_R = r, Reader_H = decode_Header bs\<rparr>, srcs(r := rest))))"

text \<open>
  The loop of \<open>ReadInt\<close>, \<open>for j := 0; j < int(r.H.Channels); j++\<close>, on the bytes of
  the stream: \<open>ret\<close> is the slice being filled, every failed \<open>binary.Read\<close> returns
  \<open>nil, err\<close>, and the \<open>default\<close> branch panics.
\<close>

function ReadInt_loop ::
  "uint16 \<Rightarrow> nat \<Rightarrow> nat \<Rightarrow> int64 list \<Rightarrow> byte list \<Rightarrow> (error + int64 list) \<times> byte list" where
  "ReadInt_loop bps n j ret s =
     (if j < n then
        (if bps = 8 then
           (case ReadFull 1 s of
              (Inl err, s1) \<Rightarrow> (Inl err, s1)
            | (Inr bs, s1) \<Rightarrow> ReadInt_loop bps n (j + 1) (ret[j := scast (bs ! 0)]) s1)
         else if bps = 16 then
           (case ReadFull 2 s of
              (Inl err, s1) \<Rightarrow> (Inl err, s1)
            | (Inr bs, s1) \<Rightarrow> ReadInt_loop bps n (j + 1) (ret[j := scast (Uint16 bs)]) s1)
         else if bps = 32 then
           (case ReadFull 4 s of
              (Inl err, s1) \<Rightarrow> (Inl err, s1)
            | (Inr bs, s1) \<Rightarrow> ReadInt_loop bps n (j + 1) (ret[j := scast (Uint32 bs)]) s1)
         else if bps = 24 then
           (case ReadFull 2 s of
              (Inl err, s1) \<Rightarrow> (Inl err, s1)
            | (Inr bs1, s1) \<Rightarrow>
                (case ReadFull 1 s1 of
                   (Inl err, s2) \<Rightarrow> (Inl err, s2)
                 | (Inr bs2, s2) \<Rightarrow>
                     ReadInt_loop bps n (j + 1)
                       (ret[j := push_bit 16 (scast (bs2 ! 0)) + ucast (Uint16 bs1)]) s2))
         else (Inl (PanicUnknownBits bps), s))
      else (Inr ret, s))"
  by pat_completeness auto
termination
  by (relation "measure (\<lambda>(bps, n, j, ret, s). n - j)") auto

declare ReadInt_loop.simps [simp del]

definition ReadInt :: "Reader \<Rightarrow> sources \<Rightarrow> (error + int64 list) \<times> sources" where
  "ReadInt r srcs =
     (let n = unat (Channels (Reader_H r)) in
      case ReadInt_loop (BitsPerSample (Reader_H r)) n 0 (replicate n 0) (srcs (Reader_R r)) of
        (res, rest) \<Rightarrow> (res, srcs(Reader_R r := rest)))"

text \<open>
  \<open>ReadFloat\<close>. A \<open>float32\<close> is carried as its IEEE bit pattern, which is what
  \<open>binary.Read\<close> decodes (\<open>math.Float32frombits\<close>); the conversion \<open>float64(item)\<close> is
  a primitive of the language and is the parameter \<open>widen\<close>, from the bit pattern to the
  type \<open>'f\<close> of \<open>float64\<close> values.
\<close>

definition ReadFloat :: "(uint32 \<Rightarrow> 'f) \<Rightarrow> Reader \<Rightarrow> sources \<Rightarrow> (error + 'f list) \<times> sources" where
  "ReadFloat widen r srcs =
     (if BitsPerSample (Reader_H r) \<noteq> 32
        then (Inl (ReadFloatBits (BitsPerSample (Reader_H r))), srcs)
      else
        (let n = unat (Channels (Reader_H r)) in
         case ReadFull (4 * n) (srcs (Reader_R r)) of
           (Inl err, rest) \<Rightarrow> (Inl (ReadFloatFailed err), srcs(Reader_R r := rest))
         | (Inr bs, rest) \<Rightarrow>
             (Inr (map widen (decode_uint32s n bs)), srcs(Reader_R r := rest))))"

section \<open>The writer (writer.go)\<close>

record Writer =
  Writer_W :: nat
  Writer_H :: Header
  ctr :: int64
  numSamples :: int64

text \<open>
  \<open>NewWriter\<close>: the products are \<open>int\<close> products, the quotient by 8 is \<open>int\<close>
  division, and the conversions to \<open>uint32\<close> and \<open>uint16\<close> keep the low bits.
\<close>

definition NewWriter ::
  "nat \<Rightarrow> int64 \<Rightarrow> int64 \<Rightarrow> int64 \<Rightarrow> int64 \<Rightarrow> sinks \<Rightarrow> (error + Writer) \<times> sinks" where
  "NewWriter w channels samplesPerSec bitsPerSample nSamples ss =
     (let subChunk2Size = (ucast (int_quo (nSamples * channels * bitsPerSample) 8) :: uint32);
          h = \<lparr>RiffID = Byte4 (of_char CHR ''R'') (of_char CHR ''I'') (of_char CHR ''F'')
                  (of_char CHR ''F''),
               DataSize = 36 + subChunk2Size,
               RiffType = Byte4 (of_char CHR ''W'') (of_char CHR ''A'') (of_char CHR ''V'')
                  (of_char CHR ''E''),
               FmtChunkID = Byte4 (of_char CHR ''f'') (of_char CHR ''m'') (of_char CHR ''t'')
                  (of_char CHR '' ''),
               FmtChunkSize = 16,
               AudioFmt = 1,
               Channels = ucast channels,
               SamplesPerSec = ucast samplesPerSec,
               BytesPerSec = ucast (int_quo (samplesPerSec * channels * bitsPerSample) 8),
               BlockAlign = ucast (int_quo (channels * bitsPerSample) 8),
               BitsPerSample = ucast bitsPerSample,
               DataChunkID = Byte4 (of_char CHR ''d'') (of_char CHR ''a'') (of_char CHR ''t'')
                  (of_char CHR ''a''),
               DataChunkSize = subChunk2Size\<rparr>
      in case sink_Write (ss w) (encode_Header h) of
           (Some err, s1) \<Rightarrow> (Inl (WriteHeaderFailed err), ss(w := s1))
         | (None, s1) \<Rightarrow>
             (Inr \<lparr>Writer_W = w, Writer_H = h, ctr = 0, numSamples = nSamples\<rparr>, ss(w := s1)))"

text \<open>
  What \<open>binary.Write\<close> makes of the \<open>[]int8\<close>, \<open>[]int16\<close> and \<open>[]int32\<close> slices
  \<open>WriteInt\<close> builds: each sample narrowed by the conversion, then little-endian.
\<close>

definition encode_int8s :: "int64 list \<Rightarrow> byte list" where
  "encode_int8s samples = map (\<lambda>sample. (ucast sample :: byte)) samples"

definition encode_int16s :: "int64 list \<Rightarrow> byte list" where
  "encode_int16s samples = concat (map (\<lambda>sample. PutUint16 (ucast sample)) samples)"

definition encode_int32s :: "int64 list \<Rightarrow> byte list" where
  "encode_int32s samples = concat (map (\<lambda>sample. PutUint32 (ucast sample)) samples)"

text \<open>
  The end of \<open>WriteInt\<close>, after the \<open>switch\<close>: \<open>reterr == nil\<close> counts the frame,
  anything else is wrapped.
\<close>

definition WriteInt_finish :: "Writer \<Rightarrow> sinks \<Rightarrow> byte list \<Rightarrow> error option \<times> Writer \<times> sinks" where
  "WriteInt_finish w ss bs =
     (case sink_Write (ss (Writer_W w)) bs of
        (None, s1) \<Rightarrow> (None, w\<lparr>ctr := ctr w + 1\<rparr>, ss(Writer_W w := s1))
      | (Some reterr, s1) \<Rightarrow> (Some (WriteIntFailed reterr), w, ss(Writer_W w := s1)))"

definition WriteInt :: "Writer \<Rightarrow> int64 list \<Rightarrow> sinks \<Rightarrow> error option \<times> Writer \<times> sinks" where
  "WriteInt w samples ss =
     (if int (length samples) \<noteq> uint (Channels (Writer_H w))
        then (Some (ChannelCountMismatch (Channels (Writer_H w)) (length samples)), w, ss)
      else if numSamples w <s ctr w + 1
        then (Some (FrameBudgetExceeded (ctr w)), w, ss)
      else if BitsPerSample (Writer_H w) = 8 then WriteInt_finish w ss (encode_int8s samples)
      else if BitsPerSample (Writer_H w) = 16 then WriteInt_finish w ss (encode_int16s samples)
      else if BitsPerSample (Writer_H w) = 32 then WriteInt_finish w ss (encode_int32s samples)
      else (Some (UnrecognizedBits (BitsPerSample (Writer_H w))), w, ss))"

text \<open>
  \<open>WriteFloat\<close>. The conversion \<open>float32(sample)\<close> followed by \<open>math.Float32bits\<close>,
  which is what \<open>binary.Write\<close> serialises, is the parameter \<open>narrow\<close>.
\<close>

definition WriteFloat ::
  "('f \<Rightarrow> uint32) \<Rightarrow> Writer \<Rightarrow> 'f list \<Rightarrow> sinks \<Rightarrow> error option \<times> Writer \<times> sinks" where
  "WriteFloat narrow w samples ss =
     (if int (length samples) \<noteq> uint (Channels (Writer_H w))
        then (Some (ChannelCountMismatch (Channels (Writer_H w)) (length samples)), w, ss)
      else if numSamples w <s ctr w + 1
        then (Some (FrameBudgetExceeded (ctr w)), w, ss)
      else if BitsPerSample (Writer_H w) \<noteq> 32
        then (Some (Only32BitFloats (BitsPerSample (Writer_H w))), w, ss)
      else
        (case sink_Write (ss (Writer_W w))
                (concat (map (\<lambda>sample. PutUint32 (narrow sample)) samples)) of
           (Some err, s1) \<Rightarrow> (Some (WriteFloatFailed err), w, ss(Writer_W w := s1))
         | (None, s1) \<Rightarrow> (None, w\<lparr>ctr := ctr w + 1\<rparr>, ss(Writer_W w := s1))))"

section \<open>The loops of the tests (wave\_test.go)\<close>

text \<open>
  \<open>TestWriteData\<close> writes the frames one by one and stops at the first error; it reads
  \<open>GetSampleCount()\<close> frames one by one and stops at the first error.
\<close>

fun WriteInts :: "Writer \<Rightarrow> int64 list list \<Rightarrow> sinks \<Rightarrow> error option \<times> Writer \<times> sinks" where
  "WriteInts w [] ss = (None, w, ss)"
| "WriteInts w (f # fs) ss =
     (case WriteInt w f ss of
        (Some err, w1, ss1) \<Rightarrow> (Some err, w1, ss1)
      | (None, w1, ss1) \<Rightarrow> WriteInts w1 fs ss1)"

fun ReadInts :: "Reader \<Rightarrow> nat \<Rightarrow> sources \<Rightarrow> (error + int64 list list) \<times> sources" where
  "ReadInts r 0 srcs = (Inr [], srcs)"
| "ReadInts r (Suc k) srcs =
     (case ReadInt r srcs of
        (Inl err, srcs1) \<Rightarrow> (Inl err, srcs1)
      | (Inr f, srcs1) \<Rightarrow>
          (case ReadInts r k srcs1 of
             (Inl err, srcs2) \<Rightarrow> (Inl err, srcs2)
           | (Inr fs, srcs2) \<Rightarrow> (Inr (f # fs), srcs2)))"

text \<open>The same loops over \<open>WriteFloat\<close> and \<open>ReadFloat\<close>.\<close>

fun WriteFloats ::
  "('f \<Rightarrow> uint32) \<Rightarrow> Writer \<Rightarrow> 'f list list \<Rightarrow> sinks \<Rightarrow> error option \<times> Writer \<times> sinks" where
  "WriteFloats narrow w [] ss = (None, w, ss)"
| "WriteFloats narrow w (f # fs) ss =
     (case WriteFloat narrow w f ss of
        (Some err, w1, ss1) \<Rightarrow> (Some err, w1, ss1)
      | (None, w1, ss1) \<Rightarrow> WriteFloats narrow w1 fs ss1)"

fun ReadFloats ::
  "(uint32 \<Rightarrow> 'f) \<Rightarrow> Reader \<Rightarrow> nat \<Rightarrow> sources \<Rightarrow> (error + 'f list list) \<times> sources" where
  "ReadFloats widen r 0 srcs = (Inr [], srcs)"
| "ReadFloats widen r (Suc k) srcs =
     (case ReadFloat widen r srcs of
        (Inl err, srcs1) \<Rightarrow> (Inl err, srcs1)
      | (Inr f, srcs1) \<Rightarrow>
          (case ReadFloats widen r k srcs1 of
             (Inl err, srcs2) \<Rightarrow> (Inl err, srcs2)
           | (Inr fs, srcs2) \<Rightarrow> (Inr (f # fs), srcs2)))"

section \<open>Notions of the specification\<close>

text \<open>
  The specification lists the checks of \<open>Validate\<close> in order, each with the error it
  returns. \<open>spec_checks\<close> is that list, written from the specification's words: the
  condition that must hold, and the error for the header that breaks it.
  \<open>first_failure\<close> returns the error of the first check that fails and looks no further.
  \<open>error_field\<close> names the header field an error of \<open>Validate\<close> is about.
\<close>

datatype field = F_RiffID | F_RiffType | F_FmtChunkID | F_DataChunkID | F_FmtChunkSize
  | F_DataSize | F_AudioFmt | F_BitsPerSample

fun error_field :: "error \<Rightarrow> field option" where
  "error_field (UnexpectedRiffID want got) = Some F_RiffID"
| "error_field (UnexpectedRiffType want got) = Some F_RiffType"
| "error_field (UnexpectedFmtChunkId want got) = Some F_FmtChunkID"
| "error_field (UnexpectedDataChunkId want got) = Some F_DataChunkID"
| "error_field (UnexpectedFmtChunkSize want got) = Some F_FmtChunkSize"
| "error_field (UnexpectedDataSize want got) = Some F_DataSize"
| "error_field (OnlyUncompressedPCM got) = Some F_AudioFmt"
| "error_field (OnlyBitsSupported got) = Some F_BitsPerSample"
| "error_field _ = None"

definition spec_checks :: "((Header \<Rightarrow> bool) \<times> (Header \<Rightarrow> error)) list" where
  "spec_checks =
     [(\<lambda>h. byte4_bytes (RiffID h) = map of_char ''RIFF'',
       \<lambda>h. UnexpectedRiffID ''RIFF'' (RiffID h)),
      (\<lambda>h. byte4_bytes (RiffType h) = map of_char ''WAVE'',
       \<lambda>h. UnexpectedRiffType ''WAVE'' (RiffType h)),
      (\<lambda>h. byte4_bytes (FmtChunkID h) = map of_char ''fmt '',
       \<lambda>h. UnexpectedFmtChunkId ''fmt '' (FmtChunkID h)),
      (\<lambda>h. byte4_bytes (DataChunkID h) = map of_char ''data'',
       \<lambda>h. UnexpectedDataChunkId ''data'' (DataChunkID h)),
      (\<lambda>h. FmtChunkSize h = 16,
       \<lambda>h. UnexpectedFmtChunkSize 16 (FmtChunkSize h)),
      (\<lambda>h. DataSize h = 36 + DataChunkSize h,
       \<lambda>h. UnexpectedDataSize (36 + DataChunkSize h) (DataSize h)),
      (\<lambda>h. AudioFmt h = 1,
       \<lambda>h. OnlyUncompressedPCM (AudioFmt h)),
      (\<lambda>h. BitsPerSample h \<in> {8, 16, 24, 32},
       \<lambda>h. OnlyBitsSupported (BitsPerSample h))]"

fun first_failure ::
  "((Header \<Rightarrow> bool) \<times> (Header \<Rightarrow> error)) list \<Rightarrow> Header \<Rightarrow> error option" where
  "first_failure [] h = None"
| "first_failure ((holds, err) # cs) h =
     (if holds h then first_failure cs h else Some (err h))"

text \<open>
  Three headers. \<open>test_header\<close> is the header of the test data of wave\_test.go (two
  channels, 16 bits, 89 frames). \<open>zero_channels_header\<close> is a well-formed header of a
  file that declares no channel. \<open>wrapping_header\<close> is the header \<open>NewWriter\<close> builds
  for 16385 channels of 32 bits and one frame: one frame takes 65540 bytes.
\<close>

definition test_header :: Header where
  "test_header =
     \<lparr>RiffID = Byte4 82 73 70 70, DataSize = 392, RiffType = Byte4 87 65 86 69,
      FmtChunkID = Byte4 102 109 116 32, FmtChunkSize = 16, AudioFmt = 1, Channels = 2,
      SamplesPerSec = 44100, BytesPerSec = 176400, BlockAlign = 4, BitsPerSample = 16,
      DataChunkID = Byte4 100 97 116 97, DataChunkSize = 356\<rparr>"

definition zero_channels_header :: Header where
  "zero_channels_header =
     \<lparr>RiffID = Byte4 82 73 70 70, DataSize = 36, RiffType = Byte4 87 65 86 69,
      FmtChunkID = Byte4 102 109 116 32, FmtChunkSize = 16, AudioFmt = 1, Channels = 0,
      SamplesPerSec = 44100, BytesPerSec = 0, BlockAlign = 0, BitsPerSample = 16,
      DataChunkID = Byte4 100 97 116 97, DataChunkSize = 0\<rparr>"

definition wrapping_header :: Header where
  "wrapping_header =
     \<lparr>RiffID = Byte4 82 73 70 70, DataSize = 65576, RiffType = Byte4 87 65 86 69,
      FmtChunkID = Byte4 102 109 116 32, FmtChunkSize = 16, AudioFmt = 1, Channels = 16385,
      SamplesPerSec = 44100, BytesPerSec = 2890314000, BlockAlign = 4, BitsPerSample = 32,
      DataChunkID = Byte4 100 97 116 97, DataChunkSize = 65540\<rparr>"

text \<open>An output stream that never fills, with nothing written yet.\<close>

definition empty_sinks :: sinks where
  "empty_sinks = (\<lambda>_. \<lparr>written = [], room = None\<rparr>)"

text \<open>
  What a frame decodes to. \<open>sample_bytes\<close> is the number of bytes \<open>ReadInt\<close> reads
  for one sample of the four supported depths, \<open>decode_sample\<close> the value it stores for
  them, \<open>decode_frame bps m s\<close> the \<open>m\<close> samples decoded from the front of \<open>s\<close>.
  \<open>pcm24 b0 b1 b2\<close> is the specification's 24-bit value, as an integer: the signed
  high byte \<open>b2\<close> shifted by 16 bits, plus the unsigned little-endian low part.
\<close>

definition sample_bytes :: "uint16 \<Rightarrow> nat" where
  "sample_bytes bps = (if bps = 8 then 1 else if bps = 16 then 2 else if bps = 32 then 4 else 3)"

definition decode_sample :: "uint16 \<Rightarrow> byte list \<Rightarrow> int64" where
  "decode_sample bps bs =
     (if bps = 8 then scast (bs ! 0)
      else if bps = 16 then scast (Uint16 bs)
      else if bps = 32 then scast (Uint32 bs)
      else push_bit 16 (scast (bs ! 2)) + ucast (Uint16 bs))"

fun decode_frame :: "uint16 \<Rightarrow> nat \<Rightarrow> byte list \<Rightarrow> int64 list" where
  "decode_frame bps 0 s = []"
| "decode_frame bps (Suc m) s =
     decode_sample bps (take (sample_bytes bps) s)
       # decode_frame bps m (drop (sample_bytes bps) s)"

definition pcm24 :: "byte \<Rightarrow> byte \<Rightarrow> byte \<Rightarrow> int" where
  "pcm24 b0 b1 b2 = sint b2 * 65536 + (uint b0 + 256 * uint b1)"

text \<open>
  Readers and writers of two channels, over the header of the test data with the bit
  depth changed; the writers have a budget of one frame.
\<close>

definition reader16 :: Reader where
  "reader16 = \<lparr>Reader_R = 0, Reader_H = test_header\<rparr>"

definition reader24 :: Reader where
  "reader24 = \<lparr>Reader_R = 0, Reader_H = test_header\<lparr>BitsPerSample := 24\<rparr>\<rparr>"

definition reader32 :: Reader where
  "reader32 = \<lparr>Reader_R = 0, Reader_H = test_header\<lparr>BitsPerSample := 32\<rparr>\<rparr>"

definition writer16 :: Writer where
  "writer16 = \<lparr>Writer_W = 0, Writer_H = test_header, ctr = 0, numSamples = 1\<rparr>"

definition writer24 :: Writer where
  "writer24 = \<lparr>Writer_W = 0, Writer_H = test_header\<lparr>BitsPerSample := 24\<rparr>, ctr = 0,
     numSamples = 1\<rparr>"

text \<open>
  The header of the specification's Encode, for parameters given as natural numbers: the
  derived sizes are computed in the naturals, as the specification writes them
  (\<open>dataChunkSize = frameCount * channels * bitsPerSample / 8\<close> and so on), and each
  value is then stored in its field, which keeps the low bits.
\<close>

definition spec_header :: "nat \<Rightarrow> nat \<Rightarrow> nat \<Rightarrow> nat \<Rightarrow> Header" where
  "spec_header channels samplesPerSec bitsPerSample frameCount =
     \<lparr>RiffID = Byte4 (of_char CHR ''R'') (of_char CHR ''I'') (of_char CHR ''F'')
        (of_char CHR ''F''),
      DataSize = of_nat (36 + frameCount * channels * bitsPerSample div 8),
      RiffType = Byte4 (of_char CHR ''W'') (of_char CHR ''A'') (of_char CHR ''V'')
        (of_char CHR ''E''),
      FmtChunkID = Byte4 (of_char CHR ''f'') (of_char CHR ''m'') (of_char CHR ''t'')
        (of_char CHR '' ''),
      FmtChunkSize = 16,
      AudioFmt = 1,
      Channels = of_nat channels,
      SamplesPerSec = of_nat samplesPerSec,
      BytesPerSec = of_nat (samplesPerSec * channels * bitsPerSample div 8),
      BlockAlign = of_nat (channels * bitsPerSample div 8),
      BitsPerSample = of_nat bitsPerSample,
      DataChunkID = Byte4 (of_char CHR ''d'') (of_char CHR ''a'') (of_char CHR ''t'')
        (of_char CHR ''a''),
      DataChunkSize = of_nat (frameCount * channels * bitsPerSample div 8)\<rparr>"

text \<open>
  Header parameters for which a file can be written and read back: at least one channel,
  a bit depth that \<open>WriteInt\<close> or \<open>WriteFloat\<close> supports, and values that fit the
  header fields they are stored in (the sample rate and the data size in 32 bits, the
  frame size in 16 bits).
\<close>

definition valid_params :: "nat \<Rightarrow> nat \<Rightarrow> nat \<Rightarrow> nat \<Rightarrow> bool" where
  "valid_params channels samplesPerSec bitsPerSample frameCount \<longleftrightarrow>
     1 \<le> channels \<and> bitsPerSample \<in> {8, 16, 32} \<and> samplesPerSec < 2 ^ 32 \<and>
     channels * (bitsPerSample div 8) < 2 ^ 16 \<and>
     frameCount * channels * (bitsPerSample div 8) < 2 ^ 32"

text \<open>A sample value that a signed integer of \<open>bits\<close> bits represents.\<close>

definition in_range :: "nat \<Rightarrow> int64 \<Rightarrow> bool" where
  "in_range bits v \<longleftrightarrow> - (2 ^ (bits - 1)) \<le> sint v \<and> sint v < 2 ^ (bits - 1)"

text \<open>
  The bytes of one frame and of a sequence of frames, as \<open>WriteInt\<close> and \<open>WriteFloat\<close>
  send them to the stream.
\<close>

definition encode_ints :: "uint16 \<Rightarrow> int64 list \<Rightarrow> byte list" where
  "encode_ints bps samples =
     (if bps = 8 then encode_int8s samples
      else if bps = 16 then encode_int16s samples
      else encode_int32s samples)"

definition int_data :: "uint16 \<Rightarrow> int64 list list \<Rightarrow> byte list" where
  "int_data bps frames = concat (map (encode_ints bps) frames)"

definition encode_floats :: "('f \<Rightarrow> uint32) \<Rightarrow> 'f list \<Rightarrow> byte list" where
  "encode_floats narrow samples = concat (map (\<lambda>sample. PutUint32 (narrow sample)) samples)"

definition float_data :: "('f \<Rightarrow> uint32) \<Rightarrow> 'f list list \<Rightarrow> byte list" where
  "float_data narrow frames = concat (map (encode_floats narrow) frames)"




section \<open>Casts and division\<close>

lemma uint_ucast_up:
  "LENGTH('a::len) \<le> LENGTH('b::len) \<Longrightarrow> uint (ucast (x::'a word) :: 'b word) = uint x"
  by (simp add: is_up uint_up_ucast)

lemma unat_ucast_up:
  "LENGTH('a::len) \<le> LENGTH('b::len) \<Longrightarrow> unat (ucast (x::'a word) :: 'b word) = unat x"
  by (simp add: is_up nat_int_comparison(1) uint_up_ucast)

lemma sint_ucast_up:
  assumes "LENGTH('a::len) < LENGTH('b::len)"
  shows "sint (ucast (x::'a word) :: 'b word) = uint x"
proof -
  have "uint x < 2 ^ LENGTH('a)" by (rule uint_lt2p)
  also have "(2::int) ^ LENGTH('a) \<le> 2 ^ (LENGTH('b) - 1)"
    using assms by (intro power_increasing) auto
  finally have lt: "uint x < 2 ^ (LENGTH('b) - 1)" .
  have ge: "- (2 ^ (LENGTH('b) - 1)) \<le> uint x"
    by (rule order_trans [of _ 0]) simp_all
  have "sint (ucast x :: 'b word) = signed_take_bit (LENGTH('b) - 1) (uint (ucast x :: 'b word))"
    by (simp add: sint_uint)
  also have "\<dots> = signed_take_bit (LENGTH('b) - 1) (uint x)"
    using assms by (simp add: uint_ucast_up)
  also have "\<dots> = uint x"
    using ge lt by (rule signed_take_bit_int_eq_self)
  finally show ?thesis .
qed

lemma sdiv_nonneg: "0 \<le> k \<Longrightarrow> 0 \<le> l \<Longrightarrow> (k::int) sdiv l = k div l"
  by (simp add: signed_divide_int_def sgn_if)

lemma int_quo_ucast:
  "int_quo (ucast (a :: uint32)) (ucast (b :: uint16)) = word_of_nat (unat a div unat b)"
proof -
  have "sint (ucast a :: int64) sdiv sint (ucast b :: int64) = uint a div uint b"
    by (simp add: sint_ucast_up sdiv_nonneg)
  also have "\<dots> = int (unat a div unat b)"
    by (simp only: uint_nat zdiv_int)
  finally show ?thesis
    by (simp add: int_quo_def)
qed

lemma ucast_16_64_eq_0: "(ucast (x :: uint16) :: int64) = 0 \<longleftrightarrow> x = 0"
proof -
  have u: "unat (ucast x :: int64) = unat x"
    by (simp add: unat_ucast_up)
  show ?thesis
    using u by (metis unat_eq_zero)
qed

section \<open>The header checks\<close>

lemma byte4Cmp_loop_step:
  "j < 4 \<Longrightarrow>
   byte4Cmp_loop b s j = (byte4_at b j = of_char (s ! j) \<and> byte4Cmp_loop b s (Suc j))"
  by (subst byte4Cmp_loop.simps) simp

lemma byte4Cmp_loop_end: "byte4Cmp_loop b s (Suc (Suc (Suc (Suc 0))))"
  by (subst byte4Cmp_loop.simps) simp

lemma byte4Cmp_loop_0:
  "byte4Cmp_loop (Byte4 a b c d) s 0 =
     (a = of_char (s ! 0) \<and> b = of_char (s ! 1) \<and> c = of_char (s ! 2) \<and> d = of_char (s ! 3))"
  by (simp add: byte4Cmp_loop_step [of 0] byte4Cmp_loop_step [of "Suc 0"]
      byte4Cmp_loop_step [of "Suc (Suc 0)"] byte4Cmp_loop_step [of "Suc (Suc (Suc 0))"]
      byte4Cmp_loop_end numeral_2_eq_2 numeral_3_eq_3)

lemma length4_cases:
  "length s = 4 \<Longrightarrow> \<exists>c0 c1 c2 c3. s = [c0, c1, c2, c3]"
  by (cases s; simp; rename_tac t; case_tac t; simp; rename_tac t; case_tac t; simp;
      rename_tac t; case_tac t; simp)

lemma byte4Cmp_eq:
  assumes "length s = 4"
  shows "byte4Cmp b s = Inr (byte4_bytes b = map of_char s)"
proof -
  obtain c0 c1 c2 c3 where s: "s = [c0, c1, c2, c3]"
    using length4_cases [OF assms] by blast
  obtain a b' c d where b: "b = Byte4 a b' c d" by (cases b)
  show ?thesis
    by (simp add: byte4Cmp_def s b byte4Cmp_loop_0)
qed

lemma Validate_first_failure: "Validate h = first_failure spec_checks h"
  by (simp add: Validate_def spec_checks_def byte4Cmp_eq)

lemma first_failure_None:
  "first_failure cs h = None \<longleftrightarrow> list_all (\<lambda>(holds, err). holds h) cs"
  by (induction cs h rule: first_failure.induct) auto

lemma Validate_None_iff:
  "Validate h = None \<longleftrightarrow>
     byte4_bytes (RiffID h) = map of_char ''RIFF'' \<and>
     byte4_bytes (RiffType h) = map of_char ''WAVE'' \<and>
     byte4_bytes (FmtChunkID h) = map of_char ''fmt '' \<and>
     byte4_bytes (DataChunkID h) = map of_char ''data'' \<and>
     FmtChunkSize h = 16 \<and> DataSize h = 36 + DataChunkSize h \<and> AudioFmt h = 1 \<and>
     BitsPerSample h \<in> {8, 16, 24, 32}"
  by (simp add: Validate_first_failure first_failure_None spec_checks_def)

lemma Validate_None_bits:
  "Validate h = None \<Longrightarrow> BitsPerSample h \<in> {8, 16, 24, 32}"
  by (simp add: Validate_None_iff)

text \<open>
  Claim C4. \<open>Validate\<close> is the first failure of the eight checks of the specification,
  taken in its order: RiffID, RiffType, FmtChunkID, DataChunkID, FmtChunkSize, DataSize,
  AudioFmt, BitsPerSample. It returns one error, that of the first check that fails (for
  the first six the wanted and the found value, for AudioFmt and BitsPerSample the found
  value under a message that names what is supported); the eight errors are about eight
  different fields; and it returns \<open>nil\<close> exactly when the eight conditions hold. The
  panic of \<open>byte4Cmp\<close> never happens.
\<close>

theorem Validate_checks_in_order:
  "Validate h = first_failure spec_checks h
   \<and> map (\<lambda>c. error_field (snd c h)) spec_checks =
       [Some F_RiffID, Some F_RiffType, Some F_FmtChunkID, Some F_DataChunkID,
        Some F_FmtChunkSize, Some F_DataSize, Some F_AudioFmt, Some F_BitsPerSample]
   \<and> (Validate h = None) =
       (byte4_bytes (RiffID h) = map of_char ''RIFF'' \<and>
        byte4_bytes (RiffType h) = map of_char ''WAVE'' \<and>
        byte4_bytes (FmtChunkID h) = map of_char ''fmt '' \<and>
        byte4_bytes (DataChunkID h) = map of_char ''data'' \<and>
        FmtChunkSize h = 16 \<and> DataSize h = 36 + DataChunkSize h \<and> AudioFmt h = 1 \<and>
        BitsPerSample h \<in> {8, 16, 24, 32})"
proof (intro conjI)
  show "Validate h = first_failure spec_checks h"
    by (rule Validate_first_failure)
  show "map (\<lambda>c. error_field (snd c h)) spec_checks =
       [Some F_RiffID, Some F_RiffType, Some F_FmtChunkID, Some F_DataChunkID,
        Some F_FmtChunkSize, Some F_DataSize, Some F_AudioFmt, Some F_BitsPerSample]"
    by (simp add: spec_checks_def)
  show "(Validate h = None) =
       (byte4_bytes (RiffID h) = map of_char ''RIFF'' \<and>
        byte4_bytes (RiffType h) = map of_char ''WAVE'' \<and>
        byte4_bytes (FmtChunkID h) = map of_char ''fmt '' \<and>
        byte4_bytes (DataChunkID h) = map of_char ''data'' \<and>
        FmtChunkSize h = 16 \<and> DataSize h = 36 + DataChunkSize h \<and> AudioFmt h = 1 \<and>
        BitsPerSample h \<in> {8, 16, 24, 32})"
    by (rule Validate_None_iff)
qed

section \<open>The sample count\<close>

lemma GetSampleCount_eq:
  "GetSampleCount h =
     (if Channels h * (BitsPerSample h div 8) = 0 then Inl PanicDivideByZero
      else Inr (word_of_nat
        (unat (DataChunkSize h) div unat (Channels h * (BitsPerSample h div 8)))))"
  by (simp add: GetSampleCount_def Let_def int_quo_ucast ucast_16_64_eq_0)

lemma divisor_exact:
  assumes "unat (Channels h) * (unat (BitsPerSample h) div 8) < 65536"
  shows "unat (Channels h * (BitsPerSample h div 8)) =
    unat (Channels h) * (unat (BitsPerSample h) div 8)"
proof -
  have "unat (BitsPerSample h div 8) = unat (BitsPerSample h) div 8"
    by (simp add: unat_div)
  then have "unat (Channels h) * unat (BitsPerSample h div 8) < 2 ^ LENGTH(16)"
    using assms by simp
  then have "unat (Channels h * (BitsPerSample h div 8)) =
      unat (Channels h) * unat (BitsPerSample h div 8)"
    by (simp only: unat_mult_lem)
  then show ?thesis
    by (simp add: unat_div)
qed

lemma GetSampleCount_exact:
  assumes "Channels h * (BitsPerSample h div 8) \<noteq> 0"
    and "unat (Channels h) * (unat (BitsPerSample h) div 8) < 65536"
  shows "GetSampleCount h = Inr (word_of_nat
     (unat (DataChunkSize h) div (unat (Channels h) * (unat (BitsPerSample h) div 8))))"
  using assms(1) by (simp add: GetSampleCount_eq divisor_exact [OF assms(2)])

text \<open>
  Claim C2. The divisor of \<open>GetSampleCount\<close> is a \<open>uint16\<close> product and is reduced
  modulo \<open>2 ^ 16\<close>. \<open>NewWriter\<close> for 16385 channels of 32 bits and one frame builds a
  header that \<open>Validate\<close> accepts, with 65540 data bytes, which is one frame of
  \<open>16385 * 4\<close> bytes; \<open>GetSampleCount\<close> divides by \<open>65540 mod 65536 = 4\<close> and returns
  16385.
\<close>

theorem GetSampleCount_divisor_wraps:
  "fst (NewWriter 0 16385 44100 32 1 empty_sinks)
     = Inr \<lparr>Writer_W = 0, Writer_H = wrapping_header, ctr = 0, numSamples = 1\<rparr>
   \<and> Validate wrapping_header = None
   \<and> GetSampleCount wrapping_header = Inr 16385
   \<and> unat (DataChunkSize wrapping_header)
        div (unat (Channels wrapping_header) * (unat (BitsPerSample wrapping_header) div 8)) = 1"
  by (simp add: NewWriter_def sink_Write_def int_quo_def signed_divide_int_def empty_sinks_def
      wrapping_header_def Validate_def byte4Cmp_def byte4Cmp_loop_0 GetSampleCount_def Let_def)

text \<open>
  Claim C3, as stated, fails: \<open>Validate\<close> does not look at the channel count. It accepts
  the header of a file that declares no channel, and \<open>GetSampleCount\<close> then divides by
  zero.
\<close>

theorem Validate_accepts_zero_channels:
  "Validate zero_channels_header = None \<and> Channels zero_channels_header = 0
   \<and> GetSampleCount zero_channels_header = Inl PanicDivideByZero"
  by (simp add: zero_channels_header_def GetSampleCount_eq Validate_def byte4Cmp_def
      byte4Cmp_loop_0)

text \<open>
  Claim C3, amended. For a header that \<open>Validate\<close> accepts, that declares at least one
  channel and whose frame size \<open>channels * (bitsPerSample / 8)\<close> fits the 16 bits it is
  computed in, the divisor of \<open>GetSampleCount\<close> is not zero, and \<open>GetSampleCount\<close>
  returns the quotient of the data size by the frame size.
\<close>

theorem GetSampleCount_no_zero_divisor:
  assumes "Validate h = None" and "Channels h \<noteq> 0"
    and "unat (Channels h) * (unat (BitsPerSample h) div 8) < 65536"
  shows "(ucast (Channels h * (BitsPerSample h div 8)) :: int64) \<noteq> 0
    \<and> GetSampleCount h = Inr (word_of_nat
        (unat (DataChunkSize h) div (unat (Channels h) * (unat (BitsPerSample h) div 8))))"
proof -
  have bits: "8 \<le> unat (BitsPerSample h)"
    using Validate_None_bits [OF assms(1)] by auto
  have "0 < unat (Channels h)"
    using assms(2) by (simp add: unat_gt_0)
  then have "0 < unat (Channels h) * (unat (BitsPerSample h) div 8)"
    using bits by (simp add: div_greater_zero_iff)
  then have nz: "Channels h * (BitsPerSample h div 8) \<noteq> 0"
    using divisor_exact [OF assms(3)] by (metis less_numeral_extra(3) unat_0)
  show ?thesis
    using nz GetSampleCount_exact [OF nz assms(3)] by (simp add: ucast_16_64_eq_0)
qed

theorem GetSampleCount_no_zero_divisor_witness:
  "Validate test_header = None
   \<and> (ucast (Channels test_header * (BitsPerSample test_header div 8)) :: int64) \<noteq> 0
   \<and> GetSampleCount test_header = Inr 89"
proof -
  have v: "Validate test_header = None"
    by (simp add: test_header_def Validate_def byte4Cmp_def byte4Cmp_loop_0)
  have c: "Channels test_header \<noteq> 0"
    by (simp add: test_header_def)
  have b: "unat (Channels test_header) * (unat (BitsPerSample test_header) div 8) < 65536"
    by (simp add: test_header_def)
  show ?thesis
    using GetSampleCount_no_zero_divisor [OF v c b] v by (simp add: test_header_def)
qed

section \<open>Writing frames\<close>

lemma WriteInt_counter:
  "case WriteInt w samples ss of
     (None, w1, ss1) \<Rightarrow> w1 = w\<lparr>ctr := ctr w + 1\<rparr>
   | (Some err, w1, ss1) \<Rightarrow> w1 = w"
  by (auto simp add: WriteInt_def WriteInt_finish_def split: prod.splits option.splits)

lemma WriteFloat_counter:
  "case WriteFloat narrow w samples ss of
     (None, w1, ss1) \<Rightarrow> w1 = w\<lparr>ctr := ctr w + 1\<rparr>
   | (Some err, w1, ss1) \<Rightarrow> w1 = w"
  by (auto simp add: WriteFloat_def split: prod.splits option.splits)

lemma sint_plus_1:
  assumes "sint (x :: int64) \<noteq> 2 ^ 63 - 1"
  shows "sint (x + 1) = sint x + 1"
proof -
  have lt: "sint x < 2 ^ 63" using sint_lt [of x] by simp
  have ge: "- (2 ^ 63) \<le> sint x" using sint_ge [of x] by simp
  have "sint (x + 1) = signed_take_bit 63 (sint x + 1)"
    by (simp add: sint_word_ariths)
  also have "\<dots> = sint x + 1"
    using assms lt ge by (intro signed_take_bit_int_eq_self) auto
  finally show ?thesis .
qed

lemma word_sless_succ:
  assumes "sint (x :: int64) \<noteq> 2 ^ 63 - 1"
  shows "x <s x + 1"
  by (simp add: word_sless_alt sint_plus_1 [OF assms])

lemma WriteInt_ok_fields:
  "WriteInt w f ss = (None, w1, ss1) \<Longrightarrow> w1 = w\<lparr>ctr := ctr w + 1\<rparr>"
  using WriteInt_counter [where w = w and samples = f and ss = ss] by simp

lemma WriteInts_ok:
  "WriteInts w fs ss = (None, w1, ss1) \<Longrightarrow> w1 = w\<lparr>ctr := ctr w + of_nat (length fs)\<rparr>"
proof (induction fs arbitrary: w ss)
  case Nil
  then show ?case by simp
next
  case (Cons f fs)
  obtain res w2 ss2 where step: "WriteInt w f ss = (res, w2, ss2)"
    by (cases "WriteInt w f ss") auto
  with Cons.prems have res: "res = None" and rest: "WriteInts w2 fs ss2 = (None, w1, ss1)"
    by (auto split: option.splits)
  have w2: "w2 = w\<lparr>ctr := ctr w + 1\<rparr>"
    using step res WriteInt_ok_fields by blast
  show ?case
    using Cons.IH [OF rest] by (simp add: w2 algebra_simps)
qed

lemma budget_spent:
  assumes "WriteInts w fs ss = (None, w1, ss1)"
    and "ctr w = 0" and "0 \<le> sint (numSamples w)" and "sint (numSamples w) \<noteq> 2 ^ 63 - 1"
    and "int (length fs) = sint (numSamples w)"
    and "int (length f) = uint (Channels (Writer_H w))"
  shows "WriteInt w1 f ss1 = (Some (FrameBudgetExceeded (numSamples w)), w1, ss1)"
proof -
  have w1: "w1 = w\<lparr>ctr := of_nat (length fs)\<rparr>"
    using WriteInts_ok [OF assms(1)] assms(2) by simp
  have "(of_nat (length fs) :: int64) = word_of_int (sint (numSamples w))"
    using assms(5) by (metis of_int_of_nat_eq)
  then have c: "(of_nat (length fs) :: int64) = numSamples w"
    by simp
  show ?thesis
    using assms(6) word_sless_succ [OF assms(4)] by (simp add: WriteInt_def w1 c)
qed

section \<open>Reading frames\<close>

lemma ReadInt_loop_done: "ReadInt_loop bps n n ret s = (Inr ret, s)"
  by (subst ReadInt_loop.simps) simp

lemma ReadInt_loop_unfold:
  "j < n \<Longrightarrow> ReadInt_loop bps n j ret s =
        (if bps = 8 then
           (case ReadFull 1 s of
              (Inl err, s1) \<Rightarrow> (Inl err, s1)
            | (Inr bs, s1) \<Rightarrow> ReadInt_loop bps n (j + 1) (ret[j := scast (bs ! 0)]) s1)
         else if bps = 16 then
           (case ReadFull 2 s of
              (Inl err, s1) \<Rightarrow> (Inl err, s1)
            | (Inr bs, s1) \<Rightarrow> ReadInt_loop bps n (j + 1) (ret[j := scast (Uint16 bs)]) s1)
         else if bps = 32 then
           (case ReadFull 4 s of
              (Inl err, s1) \<Rightarrow> (Inl err, s1)
            | (Inr bs, s1) \<Rightarrow> ReadInt_loop bps n (j + 1) (ret[j := scast (Uint32 bs)]) s1)
         else if bps = 24 then
           (case ReadFull 2 s of
              (Inl err, s1) \<Rightarrow> (Inl err, s1)
            | (Inr bs1, s1) \<Rightarrow>
                (case ReadFull 1 s1 of
                   (Inl err, s2) \<Rightarrow> (Inl err, s2)
                 | (Inr bs2, s2) \<Rightarrow>
                     ReadInt_loop bps n (j + 1)
                       (ret[j := push_bit 16 (scast (bs2 ! 0)) + ucast (Uint16 bs1)]) s2))
         else (Inl (PanicUnknownBits bps), s))"
  by (subst ReadInt_loop.simps) (simp only: if_True)

lemma ReadInt_loop_step:
  assumes "j < n" and "bps \<in> {8, 16, 24, 32}" and "sample_bytes bps \<le> length s"
  shows "ReadInt_loop bps n j ret s =
     ReadInt_loop bps n (Suc j) (ret[j := decode_sample bps (take (sample_bytes bps) s)])
       (drop (sample_bytes bps) s)"
proof -
  consider "bps = 8" | "bps = 16" | "bps = 32" | "bps = 24"
    using assms(2) by auto
  then show ?thesis
  proof cases
    case 1
    then show ?thesis
      using assms(3)
      by (simp add: ReadInt_loop_unfold [OF assms(1)] ReadFull_def sample_bytes_def decode_sample_def)
  next
    case 2
    then show ?thesis
      using assms(3)
      by (simp add: ReadInt_loop_unfold [OF assms(1)] ReadFull_def sample_bytes_def decode_sample_def)
  next
    case 3
    then show ?thesis
      using assms(3)
      by (simp add: ReadInt_loop_unfold [OF assms(1)] ReadFull_def sample_bytes_def decode_sample_def)
  next
    case 4
    then show ?thesis
      using assms(3)
      by (auto simp add: ReadInt_loop_unfold [OF assms(1)] ReadFull_def sample_bytes_def
          decode_sample_def Uint16_def numeral_3_eq_3)
  qed
qed

lemma ReadInt_loop_short:
  assumes "j < n" and "bps \<in> {8, 16, 24, 32}" and "length s < sample_bytes bps"
  shows "ReadInt_loop bps n j ret s = (Inl EOF, []) \<or> ReadInt_loop bps n j ret s = (Inl ErrUnexpectedEOF, [])"
proof -
  consider "bps = 8" | "bps = 16" | "bps = 32" | "bps = 24"
    using assms(2) by auto
  then show ?thesis
  proof cases
    case 1
    then show ?thesis
      using assms(3)
      by (simp add: ReadInt_loop_unfold [OF assms(1)] ReadFull_def sample_bytes_def)
  next
    case 2
    then show ?thesis
      using assms(3)
      by (simp add: ReadInt_loop_unfold [OF assms(1)] ReadFull_def sample_bytes_def)
  next
    case 3
    then show ?thesis
      using assms(3)
      by (simp add: ReadInt_loop_unfold [OF assms(1)] ReadFull_def sample_bytes_def)
  next
    case 4
    then show ?thesis
      using assms(3)
      by (simp add: ReadInt_loop_unfold [OF assms(1)] ReadFull_def sample_bytes_def)
  qed
qed

lemma ReadInt_loop_ok:
  assumes "bps \<in> {8, 16, 24, 32}"
  shows "j + m = n \<Longrightarrow> length ret = n \<Longrightarrow> m * sample_bytes bps \<le> length s \<Longrightarrow>
    ReadInt_loop bps n j ret s =
      (Inr (take j ret @ decode_frame bps m s), drop (m * sample_bytes bps) s)"
proof (induction m arbitrary: j ret s)
  case 0
  then show ?case by (simp add: ReadInt_loop_done)
next
  case (Suc m)
  let ?k = "sample_bytes bps"
  let ?v = "decode_sample bps (take ?k s)"
  have j: "j < n" using Suc.prems by simp
  have k: "?k \<le> length s" using Suc.prems by simp
  have rest: "m * ?k \<le> length (drop ?k s)" using Suc.prems by simp
  have "ReadInt_loop bps n j ret s = ReadInt_loop bps n (Suc j) (ret[j := ?v]) (drop ?k s)"
    by (rule ReadInt_loop_step [OF j assms k])
  also have "\<dots> = (Inr (take (Suc j) (ret[j := ?v]) @ decode_frame bps m (drop ?k s)),
      drop (m * ?k) (drop ?k s))"
    using Suc.prems by (intro Suc.IH rest) auto
  also have "take (Suc j) (ret[j := ?v]) = take j ret @ [?v]"
    using j Suc.prems by (simp add: take_Suc_conv_app_nth)
  finally show ?case
    by (simp add: add.commute)
qed

lemma ReadInt_loop_truncated:
  assumes "bps \<in> {8, 16, 24, 32}"
  shows "j + m = n \<Longrightarrow> length s < m * sample_bytes bps \<Longrightarrow>
    ReadInt_loop bps n j ret s = (Inl EOF, []) \<or> ReadInt_loop bps n j ret s = (Inl ErrUnexpectedEOF, [])"
proof (induction m arbitrary: j ret s)
  case 0
  then show ?case by simp
next
  case (Suc m)
  let ?k = "sample_bytes bps"
  have j: "j < n" using Suc.prems by simp
  show ?case
  proof (cases "length s < ?k")
    case True
    then show ?thesis by (rule ReadInt_loop_short [OF j assms])
  next
    case False
    then have k: "?k \<le> length s" by simp
    have rest: "length (drop ?k s) < m * ?k" using Suc.prems k by simp
    have "Suc j + m = n" using Suc.prems by simp
    from Suc.IH [OF this rest] show ?thesis
      by (simp add: ReadInt_loop_step [OF j assms k])
  qed
qed

lemma length_decode_frame: "length (decode_frame bps m s) = m"
  by (induction m arbitrary: s) auto

lemma Uint16_add: "Uint16 [b0, b1] = ucast b0 + push_bit 8 (ucast b1)"
proof -
  have "(ucast b0 :: uint16) + push_bit 8 (ucast b1) = ucast b0 OR push_bit 8 (ucast b1)"
    by (rule disjunctive_add) (auto simp add: bit_simps dest: bit_imp_le_length)
  then show ?thesis
    by (simp add: Uint16_def)
qed

lemma Uint16_of_int: "Uint16 [b0, b1] = word_of_int (uint b0 + 256 * uint b1)"
proof -
  have "Uint16 [b0, b1] = word_of_int (uint b0) + word_of_int (uint b1) * 2 ^ 8"
    by (simp only: Uint16_add ucast_eq push_bit_eq_mult)
  also have "\<dots> = word_of_int (uint b0 + 256 * uint b1)"
    by (simp only: of_int_add of_int_mult of_int_numeral of_int_power mult.commute) simp
  finally show ?thesis .
qed

lemma uint_Uint16: "uint (Uint16 [b0, b1]) = uint b0 + 256 * uint b1"
proof -
  have b0: "uint b0 < 256" using uint_lt2p [of b0] by simp
  have b1: "uint b1 < 256" using uint_lt2p [of b1] by simp
  have "uint (Uint16 [b0, b1]) = (uint b0 + 256 * uint b1) mod 2 ^ 16"
    by (simp only: Uint16_of_int uint_word_of_int) simp
  also have "\<dots> = uint b0 + 256 * uint b1"
    using b0 b1 by (intro mod_pos_pos_trivial) auto
  finally show ?thesis .
qed

lemma decode_24_of_int:
  assumes "bps \<notin> {8, 16, 32}"
  shows "decode_sample bps [b0, b1, b2] = word_of_int (pcm24 b0 b1 b2)"
proof -
  have u: "Uint16 [b0, b1, b2] = Uint16 [b0, b1]"
    by (simp add: Uint16_def)
  have "decode_sample bps [b0, b1, b2] = push_bit 16 (scast b2) + ucast (Uint16 [b0, b1])"
    using assms by (simp add: decode_sample_def u)
  also have "\<dots> = word_of_int (sint b2) * 2 ^ 16 + word_of_int (uint b0 + 256 * uint b1)"
    by (simp only: scast_eq ucast_eq push_bit_eq_mult uint_Uint16)
  also have "\<dots> = word_of_int (pcm24 b0 b1 b2)"
    unfolding pcm24_def
    by (simp only: of_int_add of_int_mult of_int_numeral of_int_power) simp
  finally show ?thesis .
qed

lemma sint_decode_24:
  assumes "bps \<notin> {8, 16, 32}"
  shows "sint (decode_sample bps [b0, b1, b2]) = pcm24 b0 b1 b2"
proof -
  have lo0: "0 \<le> uint b0 + 256 * uint b1" by simp
  have b0: "uint b0 < 256" using uint_lt2p [of b0] by simp
  have b1: "uint b1 < 256" using uint_lt2p [of b1] by simp
  have hi1: "- 128 \<le> sint b2" using sint_ge [of b2] by simp
  have hi2: "sint b2 < 128" using sint_lt [of b2] by simp
  have "sint (decode_sample bps [b0, b1, b2]) = signed_take_bit 63 (pcm24 b0 b1 b2)"
    by (simp only: decode_24_of_int [OF assms] sint_sbintrunc') simp
  also have "\<dots> = pcm24 b0 b1 b2"
  proof (rule signed_take_bit_int_eq_self)
    have r: "- 8388608 \<le> pcm24 b0 b1 b2 \<and> pcm24 b0 b1 b2 < 8388608"
      using b0 b1 hi1 hi2 uint_ge_0 [of b0] uint_ge_0 [of b1] unfolding pcm24_def by linarith
    show "- (2 ^ 63) \<le> pcm24 b0 b1 b2" using r by simp
    show "pcm24 b0 b1 b2 < 2 ^ 63" using r by simp
  qed
  finally show ?thesis .
qed

lemma ReadInt_loop_exit: "\<not> j < n \<Longrightarrow> ReadInt_loop bps n j ret s = (Inr ret, s)"
  by (subst ReadInt_loop.simps) simp

lemma ReadInt_ok:
  assumes "BitsPerSample (Reader_H r) \<in> {8, 16, 24, 32}"
    and "unat (Channels (Reader_H r)) * sample_bytes (BitsPerSample (Reader_H r))
          \<le> length (srcs (Reader_R r))"
  shows "ReadInt r srcs =
     (Inr (decode_frame (BitsPerSample (Reader_H r)) (unat (Channels (Reader_H r)))
            (srcs (Reader_R r))),
      srcs(Reader_R r := drop (unat (Channels (Reader_H r))
            * sample_bytes (BitsPerSample (Reader_H r))) (srcs (Reader_R r))))"
  using ReadInt_loop_ok [OF assms(1), of 0 "unat (Channels (Reader_H r))"
      "unat (Channels (Reader_H r))" "replicate (unat (Channels (Reader_H r))) 0"
      "srcs (Reader_R r)"] assms(2)
  by (simp add: ReadInt_def Let_def)

lemma ReadInt_truncated:
  assumes "BitsPerSample (Reader_H r) \<in> {8, 16, 24, 32}"
    and "length (srcs (Reader_R r))
          < unat (Channels (Reader_H r)) * sample_bytes (BitsPerSample (Reader_H r))"
  shows "ReadInt r srcs = (Inl EOF, srcs(Reader_R r := []))
       \<or> ReadInt r srcs = (Inl ErrUnexpectedEOF, srcs(Reader_R r := []))"
  using ReadInt_loop_truncated [OF assms(1), of 0 "unat (Channels (Reader_H r))"
      "unat (Channels (Reader_H r))" "srcs (Reader_R r)"
      "replicate (unat (Channels (Reader_H r))) 0"] assms(2)
  by (auto simp add: ReadInt_def Let_def)

lemma ReadInt_loop_unknown:
  "bps \<notin> {8, 16, 24, 32} \<Longrightarrow>
   ReadInt_loop bps n j ret s = (if j < n then (Inl (PanicUnknownBits bps), s) else (Inr ret, s))"
  by (subst ReadInt_loop.simps) simp

lemma ReadInt_length:
  assumes "fst (ReadInt r srcs) = Inr frame"
  shows "length frame = unat (Channels (Reader_H r))"
proof (cases "BitsPerSample (Reader_H r) \<in> {8, 16, 24, 32}")
  case True
  show ?thesis
  proof (cases "unat (Channels (Reader_H r)) * sample_bytes (BitsPerSample (Reader_H r))
          \<le> length (srcs (Reader_R r))")
    case True
    with assms ReadInt_ok [of r srcs] \<open>BitsPerSample (Reader_H r) \<in> {8, 16, 24, 32}\<close>
    have "frame = decode_frame (BitsPerSample (Reader_H r)) (unat (Channels (Reader_H r)))
            (srcs (Reader_R r))"
      by simp
    then show ?thesis by (simp only: length_decode_frame)
  next
    case False
    then have "length (srcs (Reader_R r))
          < unat (Channels (Reader_H r)) * sample_bytes (BitsPerSample (Reader_H r))" by simp
    from ReadInt_truncated [of r srcs] True this assms show ?thesis by auto
  qed
next
  case False
  with assms show ?thesis
    by (auto simp add: ReadInt_def Let_def ReadInt_loop_unknown split: if_splits)
qed

lemma decode_frame_nth:
  "j < m \<Longrightarrow> decode_frame bps m s ! j =
     decode_sample bps (take (sample_bytes bps) (drop (j * sample_bytes bps) s))"
proof (induction m arbitrary: j s)
  case 0
  then show ?case by simp
next
  case (Suc m)
  show ?case
  proof (cases j)
    case 0
    then show ?thesis by simp
  next
    case (Suc i)
    with Suc.prems have "i < m" by simp
    from Suc.IH [OF this, of "drop (sample_bytes bps) s"] Suc show ?thesis
      by (simp add: add.commute)
  qed
qed

lemma take3_drop:
  "3 * j + 3 \<le> length s \<Longrightarrow> take 3 (drop (3 * j) s) = [s ! (3 * j), s ! (3 * j + 1), s ! (3 * j + 2)]"
  by (simp add: list_eq_iff_nth_eq nth_Cons' numeral_3_eq_3 less_Suc_eq) 

lemma ReadFull_ok: "n \<le> length s \<Longrightarrow> ReadFull n s = (Inr (take n s), drop n s)"
  by (simp add: ReadFull_def)

lemma ReadFull_short:
  "length s < n \<Longrightarrow> ReadFull n s = (Inl EOF, []) \<or> ReadFull n s = (Inl ErrUnexpectedEOF, [])"
  by (simp add: ReadFull_def)

lemma decode_uint32s_take: "decode_uint32s n (take (4 * n) s) = decode_uint32s n s"
  by (simp add: decode_uint32s_def drop_take min_def)

lemma take4_drop:
  "4 * j + 4 \<le> length s \<Longrightarrow>
   take 4 (drop (4 * j) s) = [s ! (4 * j), s ! (4 * j + 1), s ! (4 * j + 2), s ! (4 * j + 3)]"
  by (simp add: list_eq_iff_nth_eq nth_Cons' numeral_3_eq_3 less_Suc_eq eval_nat_numeral)

lemma Uint32_add:
  "Uint32 [a, b, c, d] =
     ucast a + push_bit 8 (ucast b) + push_bit 16 (ucast c) + push_bit 24 (ucast d)"
proof -
  have 3: "(push_bit 16 (ucast c) :: uint32) + push_bit 24 (ucast d)
      = push_bit 16 (ucast c) OR push_bit 24 (ucast d)"
    by (rule disjunctive_add) (auto simp add: bit_simps dest: bit_imp_le_length)
  have 2: "(push_bit 8 (ucast b) :: uint32) + (push_bit 16 (ucast c) OR push_bit 24 (ucast d))
      = push_bit 8 (ucast b) OR push_bit 16 (ucast c) OR push_bit 24 (ucast d)"
    by (rule disjunctive_add) (auto simp add: bit_simps dest: bit_imp_le_length)
  have 1: "(ucast a :: uint32)
       + (push_bit 8 (ucast b) OR push_bit 16 (ucast c) OR push_bit 24 (ucast d))
      = ucast a OR push_bit 8 (ucast b) OR push_bit 16 (ucast c) OR push_bit 24 (ucast d)"
    by (rule disjunctive_add) (auto simp add: bit_simps dest: bit_imp_le_length)
  have "Uint32 [a, b, c, d] =
      ucast a + (push_bit 8 (ucast b) + (push_bit 16 (ucast c) + push_bit 24 (ucast d)))"
    by (simp add: Uint32_def 1 2 3)
  then show ?thesis
    by (simp only: add.assoc)
qed

lemma uint_Uint32:
  "uint (Uint32 [a, b, c, d]) = uint a + 256 * uint b + 65536 * uint c + 16777216 * uint d"
proof -
  have a: "uint a < 256" using uint_lt2p [of a] by simp
  have b: "uint b < 256" using uint_lt2p [of b] by simp
  have c: "uint c < 256" using uint_lt2p [of c] by simp
  have d: "uint d < 256" using uint_lt2p [of d] by simp
  have "Uint32 [a, b, c, d] = word_of_int (uint a) + word_of_int (uint b) * 2 ^ 8
      + word_of_int (uint c) * 2 ^ 16 + word_of_int (uint d) * 2 ^ 24"
    by (simp only: Uint32_add ucast_eq push_bit_eq_mult)
  also have "\<dots> = word_of_int (uint a + 256 * uint b + 65536 * uint c + 16777216 * uint d)"
    by (simp only: of_int_add of_int_mult of_int_numeral of_int_power mult.commute) simp
  finally have "uint (Uint32 [a, b, c, d])
      = (uint a + 256 * uint b + 65536 * uint c + 16777216 * uint d) mod 2 ^ 32"
    by (simp only: uint_word_of_int) simp
  also have "\<dots> = uint a + 256 * uint b + 65536 * uint c + 16777216 * uint d"
  proof (rule mod_pos_pos_trivial)
    have r: "uint a + 256 * uint b + 65536 * uint c + 16777216 * uint d < 4294967296"
      using a b c d by linarith
    show "uint a + 256 * uint b + 65536 * uint c + 16777216 * uint d < 2 ^ 32"
      using r by simp
    show "0 \<le> uint a + 256 * uint b + 65536 * uint c + 16777216 * uint d"
      by simp
  qed
  finally show ?thesis .
qed
section \<open>Claims about the reader\<close>

text \<open>
  Claim C5. For a reader whose header has 24 bits per sample and a stream that holds a
  whole frame, \<open>ReadInt\<close> returns one value per channel, and channel \<open>j\<close> is decoded
  from the three bytes at \<open>3 * j\<close>: the unsigned 16-bit little-endian low part
  \<open>b0 + 256 * b1\<close> plus the signed high byte \<open>b2\<close> shifted left by 16 bits, as an
  integer (nothing wraps in the 64-bit sum).
\<close>

theorem ReadInt_24_bit:
  assumes "BitsPerSample (Reader_H r) = 24"
    and "3 * unat (Channels (Reader_H r)) \<le> length (srcs (Reader_R r))"
  shows "ReadInt r srcs =
      (Inr (decode_frame 24 (unat (Channels (Reader_H r))) (srcs (Reader_R r))),
       srcs(Reader_R r := drop (3 * unat (Channels (Reader_H r))) (srcs (Reader_R r))))
    \<and> length (decode_frame 24 (unat (Channels (Reader_H r))) (srcs (Reader_R r)))
        = unat (Channels (Reader_H r))
    \<and> (\<forall>j < unat (Channels (Reader_H r)).
          sint (decode_frame 24 (unat (Channels (Reader_H r))) (srcs (Reader_R r)) ! j) =
          pcm24 (srcs (Reader_R r) ! (3 * j)) (srcs (Reader_R r) ! (3 * j + 1))
            (srcs (Reader_R r) ! (3 * j + 2)))"
proof (intro conjI allI impI)
  have k: "sample_bytes 24 = 3" by (simp add: sample_bytes_def)
  show "ReadInt r srcs =
      (Inr (decode_frame 24 (unat (Channels (Reader_H r))) (srcs (Reader_R r))),
       srcs(Reader_R r := drop (3 * unat (Channels (Reader_H r))) (srcs (Reader_R r))))"
    using ReadInt_ok [of r srcs] assms by (simp add: k mult.commute)
  show "length (decode_frame 24 (unat (Channels (Reader_H r))) (srcs (Reader_R r)))
        = unat (Channels (Reader_H r))"
    by (rule length_decode_frame)
  fix j assume j: "j < unat (Channels (Reader_H r))"
  then have len: "3 * j + 3 \<le> length (srcs (Reader_R r))"
    using assms(2) by simp
  have "decode_frame 24 (unat (Channels (Reader_H r))) (srcs (Reader_R r)) ! j =
      decode_sample 24 (take 3 (drop (3 * j) (srcs (Reader_R r))))"
    by (simp add: decode_frame_nth [OF j] k mult.commute)
  then show "sint (decode_frame 24 (unat (Channels (Reader_H r))) (srcs (Reader_R r)) ! j) =
          pcm24 (srcs (Reader_R r) ! (3 * j)) (srcs (Reader_R r) ! (3 * j + 1))
            (srcs (Reader_R r) ! (3 * j + 2))"
    by (simp only: take3_drop [OF len] sint_decode_24 [of 24, simplified])
qed

lemma reader24_facts:
  "BitsPerSample (Reader_H reader24) = 24" "unat (Channels (Reader_H reader24)) = 2"
  "Reader_R reader24 = 0" "sample_bytes 24 = 3"
  by (simp_all add: reader24_def test_header_def sample_bytes_def)

lemma decode_frame_24_example:
  "decode_frame 24 2 [0x00, 0x00, 0xFF, 0xFF, 0xFF, 0x00] = [- 65536, 65535]"
proof -
  have e1: "decode_sample 24 [0x00, 0x00, 0xFF] = - 65536"
    by (simp add: decode_24_of_int pcm24_def)
  have e2: "decode_sample 24 [0xFF, 0xFF, 0x00] = 65535"
    by (simp add: decode_24_of_int pcm24_def)
  have "decode_frame 24 (Suc (Suc 0)) [0x00, 0x00, 0xFF, 0xFF, 0xFF, 0x00] = [- 65536, 65535]"
    by (simp add: reader24_facts e1 e2)
  then show ?thesis
    by (simp only: numeral_2_eq_2)
qed

lemma pcm24_examples: "pcm24 0x00 0x00 0xFF = - 65536 \<and> pcm24 0xFF 0xFF 0x00 = 65535"
  by (simp add: pcm24_def)

text \<open>
  The two examples of the claim, as the two channels of one frame: the bytes
  \<open>00 00 FF\<close> decode to \<open>-65536\<close> and the bytes \<open>FF FF 00\<close> to \<open>65535\<close>.
\<close>

theorem ReadInt_24_bit_witness:
  "fst (ReadInt reader24 (\<lambda>_. [0x00, 0x00, 0xFF, 0xFF, 0xFF, 0x00])) = Inr [- 65536, 65535]
   \<and> pcm24 0x00 0x00 0xFF = - 65536 \<and> pcm24 0xFF 0xFF 0x00 = 65535"
proof -
  have b: "BitsPerSample (Reader_H reader24) = 24"
    by (simp add: reader24_facts)
  have l: "3 * unat (Channels (Reader_H reader24))
      \<le> length ((\<lambda>_. [0x00, 0x00, 0xFF, 0xFF, 0xFF, 0x00 :: byte]) (Reader_R reader24))"
    by (simp add: reader24_facts)
  from ReadInt_24_bit [OF b l]
  have "fst (ReadInt reader24 (\<lambda>_. [0x00, 0x00, 0xFF, 0xFF, 0xFF, 0x00])) =
     Inr (decode_frame 24 2 [0x00, 0x00, 0xFF, 0xFF, 0xFF, 0x00])"
    by (simp only: reader24_facts fst_conv)
  then show ?thesis
    by (simp only: decode_frame_24_example pcm24_examples simp_thms)
qed

text \<open>
  Claim C8. \<open>ReadInt\<close> returns either an error or a frame, never both. When it returns
  a frame, the frame has exactly \<open>channels\<close> values. For a header of a supported depth:
  when the stream holds fewer bytes than one frame, whichever channel the end falls in,
  the call returns no frame and the error of the failed read, \<open>io.EOF\<close> or
  \<open>io.ErrUnexpectedEOF\<close> (the specification's TruncatedStream); when it holds a frame,
  the call returns the decoded frame and consumes exactly its bytes.
\<close>

theorem ReadInt_whole_frame_or_error:
  "(\<forall>frame. fst (ReadInt r srcs) = Inr frame \<longrightarrow> length frame = unat (Channels (Reader_H r)))
   \<and> (BitsPerSample (Reader_H r) \<in> {8, 16, 24, 32}
        \<and> length (srcs (Reader_R r))
            < unat (Channels (Reader_H r)) * sample_bytes (BitsPerSample (Reader_H r))
      \<longrightarrow> ReadInt r srcs = (Inl EOF, srcs(Reader_R r := []))
          \<or> ReadInt r srcs = (Inl ErrUnexpectedEOF, srcs(Reader_R r := [])))
   \<and> (BitsPerSample (Reader_H r) \<in> {8, 16, 24, 32}
        \<and> unat (Channels (Reader_H r)) * sample_bytes (BitsPerSample (Reader_H r))
            \<le> length (srcs (Reader_R r))
      \<longrightarrow> ReadInt r srcs =
           (Inr (decode_frame (BitsPerSample (Reader_H r)) (unat (Channels (Reader_H r)))
                  (srcs (Reader_R r))),
            srcs(Reader_R r := drop (unat (Channels (Reader_H r))
                  * sample_bytes (BitsPerSample (Reader_H r))) (srcs (Reader_R r)))))"
proof (intro conjI allI impI)
  fix frame assume "fst (ReadInt r srcs) = Inr frame"
  then show "length frame = unat (Channels (Reader_H r))"
    by (rule ReadInt_length)
next
  assume "BitsPerSample (Reader_H r) \<in> {8, 16, 24, 32}
        \<and> length (srcs (Reader_R r))
            < unat (Channels (Reader_H r)) * sample_bytes (BitsPerSample (Reader_H r))"
  then show "ReadInt r srcs = (Inl EOF, srcs(Reader_R r := []))
          \<or> ReadInt r srcs = (Inl ErrUnexpectedEOF, srcs(Reader_R r := []))"
    using ReadInt_truncated [of r srcs] by blast
next
  assume "BitsPerSample (Reader_H r) \<in> {8, 16, 24, 32}
        \<and> unat (Channels (Reader_H r)) * sample_bytes (BitsPerSample (Reader_H r))
            \<le> length (srcs (Reader_R r))"
  then show "ReadInt r srcs =
           (Inr (decode_frame (BitsPerSample (Reader_H r)) (unat (Channels (Reader_H r)))
                  (srcs (Reader_R r))),
            srcs(Reader_R r := drop (unat (Channels (Reader_H r))
                  * sample_bytes (BitsPerSample (Reader_H r))) (srcs (Reader_R r))))"
    using ReadInt_ok [of r srcs] by blast
qed

lemma reader16_facts:
  "BitsPerSample (Reader_H reader16) = 16" "unat (Channels (Reader_H reader16)) = 2"
  "Reader_R reader16 = 0" "sample_bytes 16 = 2"
  by (simp_all add: reader16_def test_header_def sample_bytes_def)

lemma ReadInt_truncated_16_example:
  "ReadInt reader16 (\<lambda>_. [0x22, 0x49, 0x24])
    = (Inl ErrUnexpectedEOF, (\<lambda>_. [0x22, 0x49, 0x24])(0 := []))"
proof -
  have 1: "ReadInt_loop 16 2 0 [0, 0] [0x22, 0x49, 0x24]
      = ReadInt_loop 16 2 (Suc 0) [decode_sample 16 [0x22, 0x49], 0] [0x24]"
    using ReadInt_loop_step [of 0 2 16 "[0x22, 0x49, 0x24]" "[0, 0]"]
    by (simp add: sample_bytes_def)
  have 2: "ReadInt_loop 16 (Suc (Suc 0)) (Suc 0) ret [0x24] = (Inl ErrUnexpectedEOF, [])" for ret
    by (simp add: ReadInt_loop_unfold ReadFull_def)
  show ?thesis
    by (simp add: ReadInt_def reader16_facts numeral_2_eq_2 1 [unfolded numeral_2_eq_2] 2)
qed

lemma ReadInt_truncated_24_example:
  "ReadInt reader24 (\<lambda>_. [0x00, 0x00, 0xFF, 0xFF, 0xFF])
    = (Inl EOF, (\<lambda>_. [0x00, 0x00, 0xFF, 0xFF, 0xFF])(0 := []))"
proof -
  have 1: "ReadInt_loop 24 2 0 [0, 0] [0x00, 0x00, 0xFF, 0xFF, 0xFF]
      = ReadInt_loop 24 2 (Suc 0) [decode_sample 24 [0x00, 0x00, 0xFF], 0] [0xFF, 0xFF]"
    using ReadInt_loop_step [of 0 2 24 "[0x00, 0x00, 0xFF, 0xFF, 0xFF]" "[0, 0]"]
    by (simp add: sample_bytes_def)
  have 2: "ReadInt_loop 24 (Suc (Suc 0)) (Suc 0) ret [0xFF, 0xFF] = (Inl EOF, [])" for ret
    by (simp add: ReadInt_loop_unfold ReadFull_def)
  show ?thesis
    by (simp add: ReadInt_def reader24_facts numeral_2_eq_2 1 [unfolded numeral_2_eq_2] 2)
qed

lemma decode_frame_16_example:
  "decode_frame 16 2 [0x22, 0x49, 0x24, 0x49, 0x07] = [18722, 18724]"
proof -
  have "decode_frame 16 (Suc (Suc 0)) [0x22, 0x49, 0x24, 0x49, 0x07] = [18722, 18724]"
    by (simp add: reader16_facts decode_sample_def Uint16_def)
  then show ?thesis
    by (simp only: numeral_2_eq_2)
qed

theorem ReadInt_whole_frame_or_error_witness:
  "ReadInt reader16 (\<lambda>_. [0x22, 0x49, 0x24])
     = (Inl ErrUnexpectedEOF, (\<lambda>_. [0x22, 0x49, 0x24])(0 := []))
   \<and> ReadInt reader24 (\<lambda>_. [0x00, 0x00, 0xFF, 0xFF, 0xFF])
     = (Inl EOF, (\<lambda>_. [0x00, 0x00, 0xFF, 0xFF, 0xFF])(0 := []))
   \<and> ReadInt reader16 (\<lambda>_. [0x22, 0x49, 0x24, 0x49, 0x07])
     = (Inr [18722, 18724], (\<lambda>_. [0x22, 0x49, 0x24, 0x49, 0x07])(0 := [0x07]))
   \<and> length [18722, 18724 :: int64] = unat (Channels (Reader_H reader16))"
proof -
  note t1 = ReadInt_whole_frame_or_error [of reader16 "\<lambda>_. [0x22, 0x49, 0x24]"]
  note t2 = ReadInt_whole_frame_or_error [of reader16 "\<lambda>_. [0x22, 0x49, 0x24, 0x49, 0x07]"]
  note t3 = ReadInt_whole_frame_or_error [of reader24 "\<lambda>_. [0x00, 0x00, 0xFF, 0xFF, 0xFF]"]
  have a: "ReadInt reader16 (\<lambda>_. [0x22, 0x49, 0x24])
     = (Inl ErrUnexpectedEOF, (\<lambda>_. [0x22, 0x49, 0x24])(0 := []))"
    using t1 ReadInt_truncated_16_example by blast
  have b: "ReadInt reader24 (\<lambda>_. [0x00, 0x00, 0xFF, 0xFF, 0xFF])
     = (Inl EOF, (\<lambda>_. [0x00, 0x00, 0xFF, 0xFF, 0xFF])(0 := []))"
    using t3 ReadInt_truncated_24_example by blast
  have c: "ReadInt reader16 (\<lambda>_. [0x22, 0x49, 0x24, 0x49, 0x07])
     = (Inr [18722, 18724], (\<lambda>_. [0x22, 0x49, 0x24, 0x49, 0x07])(0 := [0x07]))"
    using t2 by (simp add: reader16_facts decode_frame_16_example)
  have d: "length [18722, 18724 :: int64] = unat (Channels (Reader_H reader16))"
    using t2 c by simp
  show ?thesis
    using a b c d by blast
qed

text \<open>
  Claim C9. \<open>ReadFloat\<close> on a header whose depth is not 32 returns the error "unexpected
  BitsPerSample ... want 32" (the specification's UnsupportedEncoding) and leaves every
  stream as it was. At depth 32, with a whole frame in the stream, it returns \<open>channels\<close>
  values: value \<open>j\<close> is the conversion \<open>widen\<close> applied to the 32-bit pattern read
  little-endian from the four bytes at \<open>4 * j\<close>, and nothing else is applied to it. A
  stream that ends before the frame does fails the call.
\<close>

theorem ReadFloat_contract:
  "(BitsPerSample (Reader_H r) \<noteq> 32 \<longrightarrow>
      ReadFloat widen r srcs = (Inl (ReadFloatBits (BitsPerSample (Reader_H r))), srcs))
   \<and> (BitsPerSample (Reader_H r) = 32
        \<and> 4 * unat (Channels (Reader_H r)) \<le> length (srcs (Reader_R r)) \<longrightarrow>
      ReadFloat widen r srcs =
        (Inr (map widen (decode_uint32s (unat (Channels (Reader_H r))) (srcs (Reader_R r)))),
         srcs(Reader_R r := drop (4 * unat (Channels (Reader_H r))) (srcs (Reader_R r))))
      \<and> length (map widen (decode_uint32s (unat (Channels (Reader_H r))) (srcs (Reader_R r))))
          = unat (Channels (Reader_H r))
      \<and> (\<forall>j < unat (Channels (Reader_H r)).
            decode_uint32s (unat (Channels (Reader_H r))) (srcs (Reader_R r)) ! j =
              Uint32 [srcs (Reader_R r) ! (4 * j), srcs (Reader_R r) ! (4 * j + 1),
                      srcs (Reader_R r) ! (4 * j + 2), srcs (Reader_R r) ! (4 * j + 3)]))
   \<and> (BitsPerSample (Reader_H r) = 32
        \<and> length (srcs (Reader_R r)) < 4 * unat (Channels (Reader_H r)) \<longrightarrow>
      ReadFloat widen r srcs = (Inl (ReadFloatFailed EOF), srcs(Reader_R r := []))
      \<or> ReadFloat widen r srcs = (Inl (ReadFloatFailed ErrUnexpectedEOF), srcs(Reader_R r := [])))
   \<and> (\<forall>a b c d. uint (Uint32 [a, b, c, d])
          = uint a + 256 * uint b + 65536 * uint c + 16777216 * uint d)"
proof (intro conjI allI impI)
  assume "BitsPerSample (Reader_H r) \<noteq> 32"
  then show "ReadFloat widen r srcs = (Inl (ReadFloatBits (BitsPerSample (Reader_H r))), srcs)"
    by (simp add: ReadFloat_def)
next
  assume a: "BitsPerSample (Reader_H r) = 32
        \<and> 4 * unat (Channels (Reader_H r)) \<le> length (srcs (Reader_R r))"
  then show "ReadFloat widen r srcs =
        (Inr (map widen (decode_uint32s (unat (Channels (Reader_H r))) (srcs (Reader_R r)))),
         srcs(Reader_R r := drop (4 * unat (Channels (Reader_H r))) (srcs (Reader_R r))))"
    by (simp add: ReadFloat_def Let_def ReadFull_ok decode_uint32s_take)
  show "length (map widen (decode_uint32s (unat (Channels (Reader_H r))) (srcs (Reader_R r))))
          = unat (Channels (Reader_H r))"
    by (simp add: decode_uint32s_def)
  fix j assume j: "j < unat (Channels (Reader_H r))"
  then have "4 * j + 4 \<le> length (srcs (Reader_R r))"
    using a by simp
  then show "decode_uint32s (unat (Channels (Reader_H r))) (srcs (Reader_R r)) ! j =
              Uint32 [srcs (Reader_R r) ! (4 * j), srcs (Reader_R r) ! (4 * j + 1),
                      srcs (Reader_R r) ! (4 * j + 2), srcs (Reader_R r) ! (4 * j + 3)]"
    using j by (simp add: decode_uint32s_def take4_drop)
next
  assume "BitsPerSample (Reader_H r) = 32
        \<and> length (srcs (Reader_R r)) < 4 * unat (Channels (Reader_H r))"
  then show "ReadFloat widen r srcs = (Inl (ReadFloatFailed EOF), srcs(Reader_R r := []))
      \<or> ReadFloat widen r srcs = (Inl (ReadFloatFailed ErrUnexpectedEOF), srcs(Reader_R r := []))"
    by (simp add: ReadFloat_def Let_def ReadFull_def)
next
  fix a b c d :: byte
  show "uint (Uint32 [a, b, c, d])
          = uint a + 256 * uint b + 65536 * uint c + 16777216 * uint d"
    by (rule uint_Uint32)
qed

lemma reader32_facts:
  "BitsPerSample (Reader_H reader32) = 32" "unat (Channels (Reader_H reader32)) = 2"
  "Reader_R reader32 = 0"
  by (simp_all add: reader32_def test_header_def)

theorem ReadFloat_contract_witness:
  "ReadFloat id reader16 (\<lambda>_. [0, 0, 0x80, 0x3F]) = (Inl (ReadFloatBits 16), (\<lambda>_. [0, 0, 0x80, 0x3F]))
   \<and> ReadFloat id reader32 (\<lambda>_. [0, 0, 0x80, 0x3F, 0, 0, 0, 0xBF, 7])
        = (Inr (map id (decode_uint32s 2 [0, 0, 0x80, 0x3F, 0, 0, 0, 0xBF, 7])),
           (\<lambda>_. [0, 0, 0x80, 0x3F, 0, 0, 0, 0xBF, 7])(0 := [7]))
   \<and> (ReadFloat id reader32 (\<lambda>_. [0, 0, 0x80, 0x3F, 0])
        = (Inl (ReadFloatFailed EOF), (\<lambda>_. [0, 0, 0x80, 0x3F, 0])(0 := []))
      \<or> ReadFloat id reader32 (\<lambda>_. [0, 0, 0x80, 0x3F, 0])
        = (Inl (ReadFloatFailed ErrUnexpectedEOF), (\<lambda>_. [0, 0, 0x80, 0x3F, 0])(0 := [])))
   \<and> uint (Uint32 [0, 0, 0x80, 0x3F]) = 0x3F800000"
proof -
  have a: "ReadFloat id reader16 (\<lambda>_. [0, 0, 0x80, 0x3F])
      = (Inl (ReadFloatBits 16), (\<lambda>_. [0, 0, 0x80, 0x3F]))"
    using ReadFloat_contract [of reader16 id "\<lambda>_. [0, 0, 0x80, 0x3F]"]
    by (simp add: reader16_facts)
  have b: "ReadFloat id reader32 (\<lambda>_. [0, 0, 0x80, 0x3F, 0, 0, 0, 0xBF, 7])
        = (Inr (map id (decode_uint32s 2 [0, 0, 0x80, 0x3F, 0, 0, 0, 0xBF, 7])),
           (\<lambda>_. [0, 0, 0x80, 0x3F, 0, 0, 0, 0xBF, 7])(0 := [7]))"
    using ReadFloat_contract [of reader32 id "\<lambda>_. [0, 0, 0x80, 0x3F, 0, 0, 0, 0xBF, 7]"]
    by (simp add: reader32_facts)
  have c: "ReadFloat id reader32 (\<lambda>_. [0, 0, 0x80, 0x3F, 0])
        = (Inl (ReadFloatFailed EOF), (\<lambda>_. [0, 0, 0x80, 0x3F, 0])(0 := []))
      \<or> ReadFloat id reader32 (\<lambda>_. [0, 0, 0x80, 0x3F, 0])
        = (Inl (ReadFloatFailed ErrUnexpectedEOF), (\<lambda>_. [0, 0, 0x80, 0x3F, 0])(0 := []))"
    using ReadFloat_contract [of reader32 id "\<lambda>_. [0, 0, 0x80, 0x3F, 0]"]
    by (simp add: reader32_facts)
  have d: "uint (Uint32 [0, 0, 0x80, 0x3F]) = 0x3F800000"
    using ReadFloat_contract [of reader32 id "\<lambda>_. []"] by simp
  show ?thesis
    using a b c d by blast
qed

section \<open>Claims about the writer's checks and counter\<close>

text \<open>
  Claim C6. \<open>WriteInt\<close> checks, in this order: the frame length against the channel
  count (error "number of samples != channels", the specification's
  ChannelCountMismatch); then \<open>ctr + 1 > numSamples\<close> (error "overflow error: attempting
  to write too many samples", FrameBudgetExceeded); then the bit depth, which must be 8,
  16 or 32 (error "unrecognized bitsPerSample", UnsupportedEncoding), so 24 is refused.
  Each of the three returns before anything is written: writer and streams are unchanged.
  \<open>ctr + 1\<close> is a Go \<open>int\<close> sum; it is the integer \<open>ctr + 1\<close> unless \<open>ctr\<close> is the
  largest \<open>int\<close>. After exactly \<open>numSamples\<close> successful writes on a fresh writer
  (\<open>numSamples\<close> not the largest \<open>int\<close>), any further frame of the right length is
  refused with FrameBudgetExceeded.
\<close>

theorem WriteInt_precondition_order:
  "(int (length samples) \<noteq> uint (Channels (Writer_H w)) \<longrightarrow>
      WriteInt w samples ss =
        (Some (ChannelCountMismatch (Channels (Writer_H w)) (length samples)), w, ss))
   \<and> (int (length samples) = uint (Channels (Writer_H w))
        \<and> sint (numSamples w) < sint (ctr w + 1) \<longrightarrow>
      WriteInt w samples ss = (Some (FrameBudgetExceeded (ctr w)), w, ss))
   \<and> (int (length samples) = uint (Channels (Writer_H w))
        \<and> \<not> sint (numSamples w) < sint (ctr w + 1)
        \<and> BitsPerSample (Writer_H w) \<notin> {8, 16, 32} \<longrightarrow>
      WriteInt w samples ss = (Some (UnrecognizedBits (BitsPerSample (Writer_H w))), w, ss))
   \<and> (sint (ctr w) \<noteq> 2 ^ 63 - 1 \<longrightarrow> sint (ctr w + 1) = sint (ctr w) + 1)
   \<and> (ctr w = 0 \<and> 0 \<le> sint (numSamples w) \<and> sint (numSamples w) \<noteq> 2 ^ 63 - 1
        \<and> int (length frames) = sint (numSamples w)
        \<and> WriteInts w frames ss = (None, w1, ss1)
        \<and> int (length samples) = uint (Channels (Writer_H w)) \<longrightarrow>
      WriteInt w1 samples ss1 = (Some (FrameBudgetExceeded (numSamples w)), w1, ss1))"
proof (intro conjI impI)
  assume "int (length samples) \<noteq> uint (Channels (Writer_H w))"
  then show "WriteInt w samples ss =
        (Some (ChannelCountMismatch (Channels (Writer_H w)) (length samples)), w, ss)"
    by (simp add: WriteInt_def)
next
  assume "int (length samples) = uint (Channels (Writer_H w))
        \<and> sint (numSamples w) < sint (ctr w + 1)"
  then show "WriteInt w samples ss = (Some (FrameBudgetExceeded (ctr w)), w, ss)"
    by (simp add: WriteInt_def word_sless_alt)
next
  assume "int (length samples) = uint (Channels (Writer_H w))
        \<and> \<not> sint (numSamples w) < sint (ctr w + 1)
        \<and> BitsPerSample (Writer_H w) \<notin> {8, 16, 32}"
  then show "WriteInt w samples ss =
      (Some (UnrecognizedBits (BitsPerSample (Writer_H w))), w, ss)"
    by (simp add: WriteInt_def word_sless_alt)
next
  assume "sint (ctr w) \<noteq> 2 ^ 63 - 1"
  then show "sint (ctr w + 1) = sint (ctr w) + 1"
    by (rule sint_plus_1)
next
  assume a: "ctr w = 0 \<and> 0 \<le> sint (numSamples w) \<and> sint (numSamples w) \<noteq> 2 ^ 63 - 1
        \<and> int (length frames) = sint (numSamples w)
        \<and> WriteInts w frames ss = (None, w1, ss1)
        \<and> int (length samples) = uint (Channels (Writer_H w))"
  show "WriteInt w1 samples ss1 = (Some (FrameBudgetExceeded (numSamples w)), w1, ss1)"
    by (rule budget_spent [of w frames ss w1 ss1 samples]) (use a in simp_all)
qed

lemma writer16_frame:
  "WriteInts writer16 [[0, 34]] empty_sinks =
     (None, writer16\<lparr>ctr := 1\<rparr>, empty_sinks(0 := \<lparr>written = [0, 0, 0x22, 0], room = None\<rparr>))"
  by (simp add: writer16_def test_header_def WriteInt_def WriteInt_finish_def sink_Write_def
      empty_sinks_def encode_int16s_def PutUint16_def)

theorem WriteInt_precondition_order_witness:
  "WriteInt writer16 [0] empty_sinks = (Some (ChannelCountMismatch 2 1), writer16, empty_sinks)
   \<and> WriteInt (writer16\<lparr>ctr := 1\<rparr>) [0, 0] empty_sinks
       = (Some (FrameBudgetExceeded 1), writer16\<lparr>ctr := 1\<rparr>, empty_sinks)
   \<and> WriteInt writer24 [0, 0] empty_sinks = (Some (UnrecognizedBits 24), writer24, empty_sinks)
   \<and> WriteInt (writer16\<lparr>ctr := 1\<rparr>) [5, 6]
         (empty_sinks(0 := \<lparr>written = [0, 0, 0x22, 0], room = None\<rparr>))
       = (Some (FrameBudgetExceeded 1), writer16\<lparr>ctr := 1\<rparr>,
          empty_sinks(0 := \<lparr>written = [0, 0, 0x22, 0], room = None\<rparr>))"
proof -
  have a: "WriteInt writer16 [0] empty_sinks
      = (Some (ChannelCountMismatch 2 1), writer16, empty_sinks)"
    using WriteInt_precondition_order [of "[0]" writer16 empty_sinks]
    by (simp add: writer16_def test_header_def)
  have b: "WriteInt (writer16\<lparr>ctr := 1\<rparr>) [0, 0] empty_sinks
       = (Some (FrameBudgetExceeded 1), writer16\<lparr>ctr := 1\<rparr>, empty_sinks)"
    using WriteInt_precondition_order [of "[0, 0]" "writer16\<lparr>ctr := 1\<rparr>" empty_sinks]
    by (simp add: writer16_def test_header_def)
  have c: "WriteInt writer24 [0, 0] empty_sinks
      = (Some (UnrecognizedBits 24), writer24, empty_sinks)"
    using WriteInt_precondition_order [of "[0, 0]" writer24 empty_sinks]
    by (simp add: writer24_def test_header_def)
  have d: "WriteInt (writer16\<lparr>ctr := 1\<rparr>) [5, 6]
         (empty_sinks(0 := \<lparr>written = [0, 0, 0x22, 0], room = None\<rparr>))
       = (Some (FrameBudgetExceeded 1), writer16\<lparr>ctr := 1\<rparr>,
          empty_sinks(0 := \<lparr>written = [0, 0, 0x22, 0], room = None\<rparr>))"
    using WriteInt_precondition_order [of "[5, 6]" writer16 empty_sinks "[[0, 34]]"
        "writer16\<lparr>ctr := 1\<rparr>" "empty_sinks(0 := \<lparr>written = [0, 0, 0x22, 0], room = None\<rparr>)"]
      writer16_frame
    by (simp add: writer16_def test_header_def)
  show ?thesis
    using a b c d by blast
qed

text \<open>
  Claim C7. A call of \<open>WriteInt\<close> or \<open>WriteFloat\<close> that succeeds leaves the writer as
  it was but for \<open>ctr\<close>, which is \<open>ctr + 1\<close> (the integer \<open>ctr + 1\<close> unless \<open>ctr\<close>
  is the largest \<open>int\<close>); a call that fails, for whatever reason, leaves the writer as
  it was. The bytes go to the caller's stream, which is not part of the writer.
\<close>

theorem write_counts_one_frame:
  "(case WriteInt w samples ss of
      (None, w1, ss1) \<Rightarrow> w1 = w\<lparr>ctr := ctr w + 1\<rparr>
    | (Some err, w1, ss1) \<Rightarrow> w1 = w)
   \<and> (case WriteFloat narrow w fsamples ss of
      (None, w1, ss1) \<Rightarrow> w1 = w\<lparr>ctr := ctr w + 1\<rparr>
    | (Some err, w1, ss1) \<Rightarrow> w1 = w)
   \<and> (sint (ctr w) \<noteq> 2 ^ 63 - 1 \<longrightarrow> sint (ctr w + 1) = sint (ctr w) + 1)"
  using WriteInt_counter [where w = w and samples = samples and ss = ss]
    WriteFloat_counter [where w = w and samples = fsamples and ss = ss and narrow = narrow]
    sint_plus_1 [of "ctr w"]
  by blast

theorem write_counts_one_frame_witness:
  "fst (WriteInt writer16 [0, 34] empty_sinks) = None
   \<and> fst (snd (WriteInt writer16 [0, 34] empty_sinks)) = writer16\<lparr>ctr := 1\<rparr>
   \<and> fst (WriteInt writer16 [0] empty_sinks) = Some (ChannelCountMismatch 2 1)
   \<and> fst (snd (WriteInt writer16 [0] empty_sinks)) = writer16
   \<and> fst (WriteFloat id writer16 [0, 0] empty_sinks) = Some (Only32BitFloats 16)
   \<and> fst (snd (WriteFloat id writer16 [0, 0] empty_sinks)) = writer16
   \<and> sint (ctr writer16 + 1) = sint (ctr writer16) + 1"
proof -
  have a: "WriteInt writer16 [0, 34] empty_sinks =
     (None, writer16\<lparr>ctr := 1\<rparr>, empty_sinks(0 := \<lparr>written = [0, 0, 0x22, 0], room = None\<rparr>))"
    using writer16_frame by (simp split: prod.splits option.splits)
  have b: "fst (WriteInt writer16 [0] empty_sinks) = Some (ChannelCountMismatch 2 1)"
    by (simp add: WriteInt_def writer16_def test_header_def)
  have c: "fst (WriteFloat id writer16 [0, 0] empty_sinks) = Some (Only32BitFloats 16)"
    by (simp add: WriteFloat_def writer16_def test_header_def)
  have d: "sint (ctr writer16) \<noteq> 2 ^ 63 - 1"
    by (simp add: writer16_def)
  note t = write_counts_one_frame [where w = writer16 and ss = empty_sinks and narrow = id]
  show ?thesis
    using t [where samples = "[0, 34]" and fsamples = "[0, 0]"]
      t [where samples = "[0]" and fsamples = "[0, 0]"] a b c d
    by (auto split: prod.splits option.splits)
qed

section \<open>The header on the wire\<close>

lemma Uint16_PutUint16: "Uint16 (PutUint16 v) = v"
  unfolding Uint16_def PutUint16_def
  by (simp, rule bit_word_eqI) (auto simp add: bit_simps)

lemma Uint32_PutUint32: "Uint32 (PutUint32 v) = v"
proof (rule bit_word_eqI)
  fix n assume "n < LENGTH(32)"
  then consider "n < 8" | "8 \<le> n \<and> n < 16" | "16 \<le> n \<and> n < 24" | "24 \<le> n \<and> n < 32"
    by fastforce
  then show "bit (Uint32 (PutUint32 v)) n = bit v n"
    by cases (auto simp add: Uint32_def PutUint32_def bit_simps)
qed

lemma byte4_of_bytes: "byte4_of (byte4_bytes b) = b"
  by (cases b) (simp add: byte4_of_def)

lemma length_byte4_bytes: "length (byte4_bytes b) = 4"
  by (cases b) simp

lemma length_PutUint16: "length (PutUint16 v) = 2"
  by (simp add: PutUint16_def)

lemma length_PutUint32: "length (PutUint32 v) = 4"
  by (simp add: PutUint32_def)

lemma length_encode_Header: "length (encode_Header h) = 44"
  by (simp add: encode_Header_def length_byte4_bytes length_PutUint16 length_PutUint32)

lemma decode_encode_Header: "decode_Header (encode_Header h) = h"
proof -
  obtain a1 a2 a3 a4 where r1: "RiffID h = Byte4 a1 a2 a3 a4" by (cases "RiffID h")
  obtain b1 b2 b3 b4 where r2: "RiffType h = Byte4 b1 b2 b3 b4" by (cases "RiffType h")
  obtain c1 c2 c3 c4 where r3: "FmtChunkID h = Byte4 c1 c2 c3 c4" by (cases "FmtChunkID h")
  obtain d1 d2 d3 d4 where r4: "DataChunkID h = Byte4 d1 d2 d3 d4" by (cases "DataChunkID h")
  have e: "encode_Header h =
      [a1, a2, a3, a4] @ PutUint32 (DataSize h) @ [b1, b2, b3, b4] @ [c1, c2, c3, c4]
      @ PutUint32 (FmtChunkSize h) @ PutUint16 (AudioFmt h) @ PutUint16 (Channels h)
      @ PutUint32 (SamplesPerSec h) @ PutUint32 (BytesPerSec h) @ PutUint16 (BlockAlign h)
      @ PutUint16 (BitsPerSample h) @ [d1, d2, d3, d4] @ PutUint32 (DataChunkSize h)"
    by (simp add: encode_Header_def r1 r2 r3 r4)
  have f1: "byte4_of (take 4 (encode_Header h)) = RiffID h"
    by (simp add: e r1 byte4_of_def)
  have f2: "take 4 (drop 4 (encode_Header h)) = PutUint32 (DataSize h)"
    by (simp add: e length_PutUint32)
  have f3: "byte4_of (take 4 (drop 8 (encode_Header h))) = RiffType h"
    by (simp add: e r2 byte4_of_def length_PutUint32)
  have f4: "byte4_of (take 4 (drop 12 (encode_Header h))) = FmtChunkID h"
    by (simp add: e r3 byte4_of_def length_PutUint32)
  have f5: "take 4 (drop 16 (encode_Header h)) = PutUint32 (FmtChunkSize h)"
    by (simp add: e length_PutUint32)
  have f6: "take 2 (drop 20 (encode_Header h)) = PutUint16 (AudioFmt h)"
    by (simp add: e length_PutUint32 length_PutUint16)
  have f7: "take 2 (drop 22 (encode_Header h)) = PutUint16 (Channels h)"
    by (simp add: e length_PutUint32 length_PutUint16)
  have f8: "take 4 (drop 24 (encode_Header h)) = PutUint32 (SamplesPerSec h)"
    by (simp add: e length_PutUint32 length_PutUint16)
  have f9: "take 4 (drop 28 (encode_Header h)) = PutUint32 (BytesPerSec h)"
    by (simp add: e length_PutUint32 length_PutUint16)
  have f10: "take 2 (drop 32 (encode_Header h)) = PutUint16 (BlockAlign h)"
    by (simp add: e length_PutUint32 length_PutUint16)
  have f11: "take 2 (drop 34 (encode_Header h)) = PutUint16 (BitsPerSample h)"
    by (simp add: e length_PutUint32 length_PutUint16)
  have f12: "byte4_of (take 4 (drop 36 (encode_Header h))) = DataChunkID h"
    by (simp add: e r4 byte4_of_def length_PutUint32 length_PutUint16)
  have f13: "take 4 (drop 40 (encode_Header h)) = PutUint32 (DataChunkSize h)"
    by (simp add: e length_PutUint32 length_PutUint16)
  show ?thesis
    by (simp add: decode_Header_def f1 f2 f3 f4 f5 f6 f7 f8 f9 f10 f11 f12 f13
        Uint32_PutUint32 Uint16_PutUint16)
qed

lemma sint_of_nat_64:
  assumes "M < 2 ^ 63"
  shows "sint (of_nat M :: int64) = int M"
proof -
  have "(of_nat M :: int64) = word_of_int (int M)"
    by simp
  then have "sint (of_nat M :: int64) = signed_take_bit 63 (int M)"
    by (simp only: sint_sbintrunc') simp
  also have "\<dots> = int M"
  proof (rule signed_take_bit_int_eq_self)
    show "- (2 ^ 63) \<le> int M" by (rule order_trans [of _ 0]) simp_all
    have "int M < int (2 ^ 63)" using assms by (simp only: of_nat_less_iff)
    then show "int M < 2 ^ 63" by simp
  qed
  finally show ?thesis .
qed

lemma ucast_of_nat_down:
  "LENGTH('b::len) \<le> LENGTH('a::len) \<Longrightarrow> (ucast (of_nat x :: 'a word) :: 'b word) = of_nat x"
  by (rule bit_word_eqI) (auto simp add: bit_simps)

lemma int_quo_of_nat_8:
  assumes "M < 2 ^ 63"
  shows "int_quo (of_nat M) 8 = of_nat (M div 8)"
proof -
  have "sint (of_nat M :: int64) sdiv sint (8 :: int64) = int M div 8"
    by (simp add: sint_of_nat_64 [OF assms] sdiv_nonneg)
  also have "\<dots> = int (M div 8)"
    by (simp add: zdiv_int)
  finally show ?thesis
    by (simp add: int_quo_def)
qed



lemma NewWriter_eq:
  assumes "N * C * B < 2 ^ 63" and "S * C * B < 2 ^ 63" and "C * B < 2 ^ 63"
  shows "NewWriter w (of_nat C) (of_nat S) (of_nat B) (of_nat N) ss =
     (case sink_Write (ss w) (encode_Header (spec_header C S B N)) of
        (Some err, s1) \<Rightarrow> (Inl (WriteHeaderFailed err), ss(w := s1))
      | (None, s1) \<Rightarrow>
          (Inr \<lparr>Writer_W = w, Writer_H = spec_header C S B N, ctr = 0, numSamples = of_nat N\<rparr>,
           ss(w := s1)))"
proof -
  have 1: "int_quo (of_nat N * of_nat C * of_nat B) 8 = of_nat (N * C * B div 8)"
    using int_quo_of_nat_8 [OF assms(1)] by simp
  have 2: "int_quo (of_nat S * of_nat C * of_nat B) 8 = of_nat (S * C * B div 8)"
    using int_quo_of_nat_8 [OF assms(2)] by simp
  have 3: "int_quo (of_nat C * of_nat B) 8 = of_nat (C * B div 8)"
    using int_quo_of_nat_8 [OF assms(3)] by simp
  have h: "spec_header C S B N =
      \<lparr>RiffID = Byte4 (of_char CHR ''R'') (of_char CHR ''I'') (of_char CHR ''F'')
                  (of_char CHR ''F''),
       DataSize = 36 + ucast (int_quo (of_nat N * of_nat C * of_nat B) 8),
       RiffType = Byte4 (of_char CHR ''W'') (of_char CHR ''A'') (of_char CHR ''V'')
                  (of_char CHR ''E''),
       FmtChunkID = Byte4 (of_char CHR ''f'') (of_char CHR ''m'') (of_char CHR ''t'')
                  (of_char CHR '' ''),
       FmtChunkSize = 16,
       AudioFmt = 1,
       Channels = ucast (of_nat C :: int64),
       SamplesPerSec = ucast (of_nat S :: int64),
       BytesPerSec = ucast (int_quo (of_nat S * of_nat C * of_nat B) 8),
       BlockAlign = ucast (int_quo (of_nat C * of_nat B) 8),
       BitsPerSample = ucast (of_nat B :: int64),
       DataChunkID = Byte4 (of_char CHR ''d'') (of_char CHR ''a'') (of_char CHR ''t'')
                  (of_char CHR ''a''),
       DataChunkSize = ucast (int_quo (of_nat N * of_nat C * of_nat B) 8)\<rparr>"
    by (simp add: 1 2 3 spec_header_def ucast_of_nat_down)
  show ?thesis
    by (simp only: NewWriter_def Let_def h)
qed

section \<open>Frames written and read back\<close>

lemma scast_ucast_in_range:
  assumes "LENGTH('a::len) \<le> 64" and "in_range LENGTH('a) v"
  shows "scast (ucast v :: 'a word) = v"
proof -
  have "(ucast v :: 'a word) = scast v"
    using assms(1) by (simp add: down_cast_same is_down)
  then have "(ucast v :: 'a word) = word_of_int (sint v)"
    by (simp only: scast_eq)
  then have "sint (ucast v :: 'a word) = signed_take_bit (LENGTH('a) - 1) (sint v)"
    by (simp only: sint_sbintrunc')
  also have "\<dots> = sint v"
    using assms(2) by (intro signed_take_bit_int_eq_self) (simp_all add: in_range_def)
  finally have "sint (ucast v :: 'a word) = sint v" .
  then have "scast (ucast v :: 'a word) = (word_of_int (sint v) :: int64)"
    by (simp only: scast_eq)
  then show ?thesis
    by simp
qed

lemma length_encode_ints:
  "bps \<in> {8, 16, 32} \<Longrightarrow> length (encode_ints bps f) = length f * sample_bytes bps"
  by (induction f)
     (auto simp add: encode_ints_def encode_int8s_def encode_int16s_def encode_int32s_def
       sample_bytes_def PutUint16_def PutUint32_def)

lemma encode_ints_Cons:
  "bps \<in> {8, 16, 32} \<Longrightarrow>
   encode_ints bps (v # f) = encode_ints bps [v] @ encode_ints bps f"
  by (auto simp add: encode_ints_def encode_int8s_def encode_int16s_def encode_int32s_def)

lemma decode_sample_encode:
  assumes "bps \<in> {8, 16, 32}" and "in_range (unat bps) v"
  shows "decode_sample bps (take (sample_bytes bps) (encode_ints bps [v] @ rest)) = v"
proof -
  consider "bps = 8" | "bps = 16" | "bps = 32" using assms(1) by auto
  then show ?thesis
  proof cases
    case 1
    then have "in_range LENGTH(8) v" using assms(2) by simp
    then have "scast (ucast v :: byte) = v" by (intro scast_ucast_in_range) simp_all
    then show ?thesis
      using 1 by (simp add: decode_sample_def sample_bytes_def encode_ints_def encode_int8s_def)
  next
    case 2
    then have "in_range LENGTH(16) v" using assms(2) by simp
    then have "scast (ucast v :: uint16) = v" by (intro scast_ucast_in_range) simp_all
    then show ?thesis
      using 2 Uint16_PutUint16 [of "ucast v"]
      by (simp add: decode_sample_def sample_bytes_def encode_ints_def encode_int16s_def
          length_PutUint16)
  next
    case 3
    then have "in_range LENGTH(32) v" using assms(2) by simp
    then have "scast (ucast v :: uint32) = v" by (intro scast_ucast_in_range) simp_all
    then show ?thesis
      using 3 Uint32_PutUint32 [of "ucast v"]
      by (simp add: decode_sample_def sample_bytes_def encode_ints_def encode_int32s_def
          length_PutUint32)
  qed
qed

lemma decode_frame_encode:
  assumes "bps \<in> {8, 16, 32}"
  shows "\<forall>v \<in> set f. in_range (unat bps) v \<Longrightarrow>
    decode_frame bps (length f) (encode_ints bps f @ rest) = f"
proof (induction f)
  case Nil
  then show ?case by simp
next
  case (Cons v f)
  have len1: "length (encode_ints bps [v]) = sample_bytes bps"
    using length_encode_ints [OF assms, of "[v]"] by simp
  have split: "encode_ints bps (v # f) @ rest = encode_ints bps [v] @ (encode_ints bps f @ rest)"
    using encode_ints_Cons [OF assms, of v f] by simp
  have hd: "decode_sample bps (take (sample_bytes bps) (encode_ints bps (v # f) @ rest)) = v"
    unfolding split using Cons.prems by (intro decode_sample_encode [OF assms]) simp
  have tl: "drop (sample_bytes bps) (encode_ints bps (v # f) @ rest) = encode_ints bps f @ rest"
    unfolding split using len1 by simp
  have ih: "decode_frame bps (length f) (encode_ints bps f @ rest) = f"
    using Cons by simp
  show ?case
    by (simp only: length_Cons decode_frame.simps hd tl ih)
qed

lemma WriteInt_ok:
  assumes "BitsPerSample (Writer_H w) \<in> {8, 16, 32}"
    and "room (ss (Writer_W w)) = None"
    and "length f = unat (Channels (Writer_H w))"
    and "sint (ctr w) < sint (numSamples w)"
  shows "WriteInt w f ss =
     (None, w\<lparr>ctr := ctr w + 1\<rparr>,
      ss(Writer_W w := \<lparr>written = written (ss (Writer_W w))
            @ encode_ints (BitsPerSample (Writer_H w)) f, room = None\<rparr>))"
proof -
  have "sint (numSamples w) \<le> 2 ^ 63 - 1" using sint_lt [of "numSamples w"] by simp
  then have nm: "sint (ctr w) \<noteq> 2 ^ 63 - 1" using assms(4) by linarith
  have b: "\<not> numSamples w <s ctr w + 1"
    using assms(4) by (simp add: word_sless_alt sint_plus_1 [OF nm])
  have l: "int (length f) = uint (Channels (Writer_H w))"
    by (simp only: assms(3) uint_nat)
  have fin: "WriteInt_finish w ss bs =
      (None, w\<lparr>ctr := ctr w + 1\<rparr>,
       ss(Writer_W w := \<lparr>written = written (ss (Writer_W w)) @ bs, room = None\<rparr>))" for bs
    by (simp add: WriteInt_finish_def sink_Write_def assms(2))
  have "WriteInt w f ss =
      WriteInt_finish w ss (encode_ints (BitsPerSample (Writer_H w)) f)"
    using assms(1) by (auto simp add: WriteInt_def encode_ints_def l b)
  then show ?thesis
    by (simp only: fin)
qed

lemma WriteInts_all:
  assumes "BitsPerSample (Writer_H w) \<in> {8, 16, 32}"
  shows "room (ss (Writer_W w)) = None \<Longrightarrow>
    \<forall>f \<in> set frames. length f = unat (Channels (Writer_H w)) \<Longrightarrow>
    sint (ctr w) + int (length frames) \<le> sint (numSamples w) \<Longrightarrow>
    WriteInts w frames ss =
      (None, w\<lparr>ctr := ctr w + of_nat (length frames)\<rparr>,
       ss(Writer_W w := \<lparr>written = written (ss (Writer_W w))
            @ int_data (BitsPerSample (Writer_H w)) frames, room = None\<rparr>))"
  using assms
proof (induction frames arbitrary: w ss)
  case Nil
  have "ss (Writer_W w) = \<lparr>written = written (ss (Writer_W w)), room = None\<rparr>"
    using Nil.prems(1) by (cases "ss (Writer_W w)") simp
  then have "ss(Writer_W w := \<lparr>written = written (ss (Writer_W w)), room = None\<rparr>) = ss"
    by (metis fun_upd_triv)
  then show ?case
    by (simp add: int_data_def)
next
  case (Cons f frames)
  let ?w1 = "w\<lparr>ctr := ctr w + 1\<rparr>"
  let ?ss1 = "ss(Writer_W w := \<lparr>written = written (ss (Writer_W w))
            @ encode_ints (BitsPerSample (Writer_H w)) f, room = None\<rparr>)"
  have lt: "sint (ctr w) < sint (numSamples w)"
    using Cons.prems(3) by simp
  have "sint (numSamples w) \<le> 2 ^ 63 - 1" using sint_lt [of "numSamples w"] by simp
  then have nm: "sint (ctr w) \<noteq> 2 ^ 63 - 1" using lt by linarith
  have step: "WriteInt w f ss = (None, ?w1, ?ss1)"
    using Cons.prems by (intro WriteInt_ok lt) simp_all
  have rest: "WriteInts ?w1 frames ?ss1 =
      (None, ?w1\<lparr>ctr := ctr ?w1 + of_nat (length frames)\<rparr>,
       ?ss1(Writer_W ?w1 := \<lparr>written = written (?ss1 (Writer_W ?w1))
            @ int_data (BitsPerSample (Writer_H ?w1)) frames, room = None\<rparr>))"
    using Cons.prems by (intro Cons.IH) (simp_all add: sint_plus_1 [OF nm])
  have rest': "WriteInts ?w1 frames ?ss1 =
      (None, w\<lparr>ctr := ctr w + of_nat (length (f # frames))\<rparr>,
       ss(Writer_W w := \<lparr>written = written (ss (Writer_W w))
            @ int_data (BitsPerSample (Writer_H w)) (f # frames), room = None\<rparr>))"
    unfolding rest by (simp add: int_data_def add.assoc)
  have "WriteInts w (f # frames) ss = WriteInts ?w1 frames ?ss1"
    by (simp only: WriteInts.simps step prod.case option.case)
  then show ?case
    by (simp only: rest')
qed

lemma Validate_spec_header:
  "B \<in> {8, 16, 24, 32} \<Longrightarrow> Validate (spec_header C S B N) = None"
  by (auto simp add: Validate_None_iff spec_header_def)

lemma NewReader_ok:
  assumes "Validate h = None" and "srcs b = encode_Header h @ data"
  shows "NewReader b srcs = (Inr \<lparr>Reader_R = b, Reader_H = h\<rparr>, srcs(b := data))"
  using assms
  by (simp add: NewReader_def ReadFull_def length_encode_Header decode_encode_Header)

lemma spec_header_fields:
  assumes "C < 65536" and "B \<in> {8, 16, 32}"
  shows "unat (Channels (spec_header C S B N)) = C"
    and "unat (BitsPerSample (spec_header C S B N)) = B"
  using assms by (auto simp add: spec_header_def unat_of_nat)

lemma div8_mult:
  assumes "B \<in> {8, 16, 32}"
  shows "N * C * B div 8 = N * (C * (B div 8 :: nat))"
  using assms by auto

lemma GetSampleCount_spec_header:
  assumes "1 \<le> C" and "B \<in> {8, 16, 32}" and "C * (B div 8) < 65536"
    and "N * C * (B div 8) < 2 ^ 32"
  shows "GetSampleCount (spec_header C S B N) = Inr (of_nat N)"
proof -
  let ?h = "spec_header C S B N"
  have pos: "0 < B div 8" using assms(2) by auto
  then have "1 \<le> B div 8" by simp
  then have "C * 1 \<le> C * (B div 8)" by (rule mult_le_mono2)
  then have "C \<le> C * (B div 8)" by (simp only: mult_1_right)
  then have c: "C < 65536" using assms(3) by (rule le_less_trans)
  have uc: "unat (Channels ?h) = C" and ub: "unat (BitsPerSample ?h) = B"
    using spec_header_fields [OF c assms(2)] by simp_all
  have fits: "unat (Channels ?h) * (unat (BitsPerSample ?h) div 8) < 65536"
    using assms(3) by (simp add: uc ub)
  have "0 < unat (Channels ?h) * (unat (BitsPerSample ?h) div 8)"
    using assms(1) pos by (simp add: uc ub)
  then have nz: "Channels ?h * (BitsPerSample ?h div 8) \<noteq> 0"
    using divisor_exact [OF fits] by (metis less_numeral_extra(3) unat_0)
  have lt: "N * (C * (B div 8)) < 2 ^ LENGTH(32)"
    using assms(4) by (simp add: mult.assoc)
  have d0: "DataChunkSize ?h = of_nat (N * C * B div 8)"
    by (simp add: spec_header_def)
  have d: "unat (DataChunkSize ?h) = N * (C * (B div 8))"
    unfolding d0 div8_mult [OF assms(2)] unat_of_nat using lt by (rule mod_less)
  have "N * (C * (B div 8)) div (C * (B div 8)) = N"
    using assms(1) pos by simp
  then show ?thesis
    by (simp add: GetSampleCount_exact [OF nz fits] d uc ub)
qed

lemma ReadInts_all:
  assumes "BitsPerSample (Reader_H r) \<in> {8, 16, 32}"
  shows "srcs (Reader_R r) = int_data (BitsPerSample (Reader_H r)) frames @ rest \<Longrightarrow>
    \<forall>f \<in> set frames. length f = unat (Channels (Reader_H r))
       \<and> (\<forall>v \<in> set f. in_range (unat (BitsPerSample (Reader_H r))) v) \<Longrightarrow>
    ReadInts r (length frames) srcs = (Inr frames, srcs(Reader_R r := rest))"
proof (induction frames arbitrary: srcs)
  case Nil
  then show ?case
    by (simp add: int_data_def) (metis fun_upd_triv)
next
  case (Cons f frames)
  let ?bps = "BitsPerSample (Reader_H r)"
  let ?n = "unat (Channels (Reader_H r))"
  let ?tail = "int_data ?bps frames @ rest"
  have bps: "?bps \<in> {8, 16, 24, 32}" using assms by auto
  have lf: "length f = ?n" using Cons.prems(2) by simp
  have s: "srcs (Reader_R r) = encode_ints ?bps f @ ?tail"
    using Cons.prems(1) by (simp add: int_data_def)
  have len: "length (encode_ints ?bps f) = ?n * sample_bytes ?bps"
    using length_encode_ints [OF assms, of f] lf by simp
  have enough: "?n * sample_bytes ?bps \<le> length (srcs (Reader_R r))"
    by (simp add: s len)
  have dec: "decode_frame ?bps ?n (srcs (Reader_R r)) = f"
    unfolding s lf [symmetric]
    using Cons.prems(2) by (intro decode_frame_encode [OF assms]) simp
  have drp: "drop (?n * sample_bytes ?bps) (srcs (Reader_R r)) = ?tail"
    unfolding s using len by simp
  have step: "ReadInt r srcs = (Inr f, srcs(Reader_R r := ?tail))"
    using ReadInt_ok [of r srcs] bps enough by (simp only: dec drp)
  have rest: "ReadInts r (length frames) (srcs(Reader_R r := ?tail))
      = (Inr frames, (srcs(Reader_R r := ?tail))(Reader_R r := rest))"
    using Cons.prems(2) by (intro Cons.IH) simp_all
  show ?case
    by (simp only: ReadInts.simps length_Cons step rest prod.case sum.case fun_upd_upd)
qed

lemma WriteFloat_ok:
  assumes "BitsPerSample (Writer_H w) = 32"
    and "room (ss (Writer_W w)) = None"
    and "length f = unat (Channels (Writer_H w))"
    and "sint (ctr w) < sint (numSamples w)"
  shows "WriteFloat narrow w f ss =
     (None, w\<lparr>ctr := ctr w + 1\<rparr>,
      ss(Writer_W w := \<lparr>written = written (ss (Writer_W w)) @ encode_floats narrow f,
            room = None\<rparr>))"
proof -
  have "sint (numSamples w) \<le> 2 ^ 63 - 1" using sint_lt [of "numSamples w"] by simp
  then have nm: "sint (ctr w) \<noteq> 2 ^ 63 - 1" using assms(4) by linarith
  have b: "\<not> numSamples w <s ctr w + 1"
    using assms(4) by (simp add: word_sless_alt sint_plus_1 [OF nm])
  have l: "int (length f) = uint (Channels (Writer_H w))"
    by (simp only: assms(3) uint_nat)
  show ?thesis
    by (simp add: WriteFloat_def l b assms(1,2) sink_Write_def encode_floats_def)
qed

lemma WriteFloats_all:
  assumes "BitsPerSample (Writer_H w) = 32"
  shows "room (ss (Writer_W w)) = None \<Longrightarrow>
    \<forall>f \<in> set frames. length f = unat (Channels (Writer_H w)) \<Longrightarrow>
    sint (ctr w) + int (length frames) \<le> sint (numSamples w) \<Longrightarrow>
    WriteFloats narrow w frames ss =
      (None, w\<lparr>ctr := ctr w + of_nat (length frames)\<rparr>,
       ss(Writer_W w := \<lparr>written = written (ss (Writer_W w)) @ float_data narrow frames,
            room = None\<rparr>))"
  using assms
proof (induction frames arbitrary: w ss)
  case Nil
  have "ss (Writer_W w) = \<lparr>written = written (ss (Writer_W w)), room = None\<rparr>"
    using Nil.prems(1) by (cases "ss (Writer_W w)") simp
  then have "ss(Writer_W w := \<lparr>written = written (ss (Writer_W w)), room = None\<rparr>) = ss"
    by (metis fun_upd_triv)
  then show ?case
    by (simp add: float_data_def)
next
  case (Cons f frames)
  let ?w1 = "w\<lparr>ctr := ctr w + 1\<rparr>"
  let ?ss1 = "ss(Writer_W w := \<lparr>written = written (ss (Writer_W w)) @ encode_floats narrow f,
      room = None\<rparr>)"
  have lt: "sint (ctr w) < sint (numSamples w)"
    using Cons.prems(3) by simp
  have "sint (numSamples w) \<le> 2 ^ 63 - 1" using sint_lt [of "numSamples w"] by simp
  then have nm: "sint (ctr w) \<noteq> 2 ^ 63 - 1" using lt by linarith
  have step: "WriteFloat narrow w f ss = (None, ?w1, ?ss1)"
    using Cons.prems by (intro WriteFloat_ok lt) simp_all
  have rest: "WriteFloats narrow ?w1 frames ?ss1 =
      (None, ?w1\<lparr>ctr := ctr ?w1 + of_nat (length frames)\<rparr>,
       ?ss1(Writer_W ?w1 := \<lparr>written = written (?ss1 (Writer_W ?w1))
            @ float_data narrow frames, room = None\<rparr>))"
    using Cons.prems by (intro Cons.IH) (simp_all add: sint_plus_1 [OF nm])
  have rest': "WriteFloats narrow ?w1 frames ?ss1 =
      (None, w\<lparr>ctr := ctr w + of_nat (length (f # frames))\<rparr>,
       ss(Writer_W w := \<lparr>written = written (ss (Writer_W w))
            @ float_data narrow (f # frames), room = None\<rparr>))"
    unfolding rest by (simp add: float_data_def add.assoc)
  have "WriteFloats narrow w (f # frames) ss = WriteFloats narrow ?w1 frames ?ss1"
    by (simp only: WriteFloats.simps step prod.case option.case)
  then show ?case
    by (simp only: rest')
qed

lemma decode_uint32s_Suc:
  "decode_uint32s (Suc n) s = Uint32 (take 4 s) # decode_uint32s n (drop 4 s)"
proof -
  have "[0..<Suc n] = 0 # map Suc [0..<n]"
    by (simp add: upt_conv_Cons map_Suc_upt del: upt_Suc)
  then show ?thesis
    by (simp add: decode_uint32s_def comp_def add.commute del: upt_Suc)
qed

lemma decode_uint32s_encode:
  "decode_uint32s (length f) (encode_floats narrow f @ rest) = map narrow f"
proof (induction f)
  case Nil
  then show ?case by (simp add: decode_uint32s_def)
next
  case (Cons v f)
  have e: "encode_floats narrow (v # f) @ rest
      = PutUint32 (narrow v) @ (encode_floats narrow f @ rest)"
    by (simp add: encode_floats_def)
  show ?case
    unfolding e length_Cons decode_uint32s_Suc
    using Cons by (simp add: length_PutUint32 Uint32_PutUint32)
qed

lemma length_encode_floats: "length (encode_floats narrow f) = 4 * length f"
  by (induction f) (simp_all add: encode_floats_def length_PutUint32)

lemma ReadFloats_all:
  assumes "BitsPerSample (Reader_H r) = 32"
  shows "srcs (Reader_R r) = float_data narrow frames @ rest \<Longrightarrow>
    \<forall>f \<in> set frames. length f = unat (Channels (Reader_H r))
       \<and> (\<forall>v \<in> set f. widen (narrow v) = v) \<Longrightarrow>
    ReadFloats widen r (length frames) srcs = (Inr frames, srcs(Reader_R r := rest))"
proof (induction frames arbitrary: srcs)
  case Nil
  then show ?case
    by (simp add: float_data_def) (metis fun_upd_triv)
next
  case (Cons f frames)
  let ?n = "unat (Channels (Reader_H r))"
  let ?tail = "float_data narrow frames @ rest"
  have lf: "length f = ?n" using Cons.prems(2) by simp
  have s: "srcs (Reader_R r) = encode_floats narrow f @ ?tail"
    using Cons.prems(1) by (simp add: float_data_def)
  have enough: "4 * ?n \<le> length (srcs (Reader_R r))"
    by (simp add: s length_encode_floats lf)
  have "map widen (map narrow f) = f"
    using Cons.prems(2) by (simp add: map_idI)
  then have dec: "map widen (decode_uint32s ?n (srcs (Reader_R r))) = f"
    unfolding s lf [symmetric] decode_uint32s_encode .
  have drp: "drop (4 * ?n) (srcs (Reader_R r)) = ?tail"
    unfolding s using length_encode_floats [of narrow f] lf by simp
  have step: "ReadFloat widen r srcs = (Inr f, srcs(Reader_R r := ?tail))"
    using assms enough
    by (simp add: ReadFloat_def Let_def ReadFull_ok decode_uint32s_take dec drp)
  have rest: "ReadFloats widen r (length frames) (srcs(Reader_R r := ?tail))
      = (Inr frames, (srcs(Reader_R r := ?tail))(Reader_R r := rest))"
    using Cons.prems(2) by (intro Cons.IH) simp_all
  show ?case
    by (simp only: ReadFloats.simps length_Cons step rest prod.case sum.case fun_upd_upd)
qed

lemma valid_params_products:
  assumes "valid_params C S B N"
  shows "N * C * B < 2 ^ 63" and "S * C * B < 2 ^ 63" and "C * B < 2 ^ 63"
    and "C < 65536" and "N < 2 ^ 32"
proof -
  from assms have b: "B \<in> {8, 16, 32}" and c1: "1 \<le> C" and s: "S < 2 ^ 32"
    and cb: "C * (B div 8) < 2 ^ 16" and ncb: "N * C * (B div 8) < 2 ^ 32"
    by (simp_all add: valid_params_def)
  define k where "k = B div 8"
  have b8: "B = 8 * k" and pos: "1 \<le> k" using b by (auto simp add: k_def)
  have ck: "C * k < 65536" using cb by (simp add: k_def)
  have nck: "N * (C * k) < 4294967296" using ncb by (simp add: k_def mult.assoc)
  have "C * 1 \<le> C * k" using pos by (rule mult_le_mono2)
  then have cle: "C \<le> C * k" by (simp only: mult_1_right)
  show c: "C < 65536" using cle ck by (rule le_less_trans)
  have "1 * 1 \<le> C * k" using c1 pos by (rule mult_le_mono)
  then have "N * (1 * 1) \<le> N * (C * k)" by (rule mult_le_mono2)
  then have nle: "N \<le> N * (C * k)" by (simp only: mult_1_right)
  have "N < 4294967296" using nle nck by (rule le_less_trans)
  then show "N < 2 ^ 32" by simp
  define m where "m = N * (C * k)"
  define q where "q = C * k"
  have m: "m < 4294967296" using nck by (simp only: m_def)
  have q: "q < 65536" using ck by (simp only: q_def)
  have e1: "N * C * B = 8 * m" by (simp add: b8 m_def)
  show "N * C * B < 2 ^ 63" unfolding e1 using m by simp
  have e2: "C * B = 8 * q" by (simp add: b8 q_def)
  have cb19: "C * B < 524288" unfolding e2 using q by simp
  then show "C * B < 2 ^ 63" by simp
  have "S * (C * B) < 4294967296 * 524288"
    using s cb19 by (intro mult_strict_mono') simp_all
  then show "S * C * B < 2 ^ 63" by (simp add: mult.assoc)
qed

lemma ucast_of_nat_up:
  assumes "x < 2 ^ LENGTH('a::len)" and "LENGTH('a) \<le> LENGTH('b::len)"
  shows "(ucast (of_nat x :: 'a word) :: 'b word) = of_nat x"
proof -
  have "unat (of_nat x :: 'a word) = x"
    using assms(1) by (simp add: unat_of_nat)
  then have "of_nat (unat (of_nat x :: 'a word)) = (of_nat x :: 'b word)"
    by simp
  then show ?thesis
    by (simp only: of_nat_unat)
qed

lemma spec_header_accessors:
  assumes "valid_params C S B N"
  shows "GetChannels (spec_header C S B N) = of_nat C"
    and "GetSamplesPerSec (spec_header C S B N) = of_nat S"
    and "GetBitsPerSample (spec_header C S B N) = of_nat B"
    and "GetSampleCount (spec_header C S B N) = Inr (of_nat N)"
proof -
  from assms have b: "B \<in> {8, 16, 32}" and c1: "1 \<le> C" and s: "S < 2 ^ 32"
    and cb: "C * (B div 8) < 2 ^ 16" and ncb: "N * C * (B div 8) < 2 ^ 32"
    by (simp_all add: valid_params_def)
  have c: "C < 2 ^ LENGTH(16)" using valid_params_products(4) [OF assms] by simp
  have b16: "B < 2 ^ LENGTH(16)" using b by auto
  show "GetChannels (spec_header C S B N) = of_nat C"
    using ucast_of_nat_up [OF c, where 'b = 64] by (simp add: GetChannels_def spec_header_def)
  show "GetSamplesPerSec (spec_header C S B N) = of_nat S"
    using ucast_of_nat_up [of S, where 'a = 32 and 'b = 64] s
    by (simp add: GetSamplesPerSec_def spec_header_def)
  show "GetBitsPerSample (spec_header C S B N) = of_nat B"
    using ucast_of_nat_up [OF b16, where 'b = 64]
    by (simp add: GetBitsPerSample_def spec_header_def)
  show "GetSampleCount (spec_header C S B N) = Inr (of_nat N)"
    using c1 b cb ncb by (intro GetSampleCount_spec_header) simp_all
qed

lemma sint_of_nat_small:
  "N < 2 ^ 32 \<Longrightarrow> sint (of_nat N :: int64) = int N"
  by (rule sint_of_nat_64) (rule less_trans [of _ "2 ^ 32"], simp_all)

lemma int_round_trip:
  assumes v: "valid_params C S B N"
    and len: "length frames = N"
    and fr: "\<forall>f \<in> set frames. length f = C \<and> (\<forall>v \<in> set f. in_range B v)"
  shows "NewWriter a (of_nat C) (of_nat S) (of_nat B) (of_nat N) empty_sinks =
       (Inr \<lparr>Writer_W = a, Writer_H = spec_header C S B N, ctr = 0, numSamples = of_nat N\<rparr>,
        empty_sinks(a := \<lparr>written = encode_Header (spec_header C S B N), room = None\<rparr>))"
    and "WriteInts \<lparr>Writer_W = a, Writer_H = spec_header C S B N, ctr = 0, numSamples = of_nat N\<rparr>
         frames (empty_sinks(a := \<lparr>written = encode_Header (spec_header C S B N), room = None\<rparr>)) =
       (None,
        \<lparr>Writer_W = a, Writer_H = spec_header C S B N, ctr = of_nat N, numSamples = of_nat N\<rparr>,
        empty_sinks(a := \<lparr>written = encode_Header (spec_header C S B N)
            @ int_data (of_nat B) frames, room = None\<rparr>))"
    and "NewReader b (srcs(b := encode_Header (spec_header C S B N) @ int_data (of_nat B) frames)) =
       (Inr \<lparr>Reader_R = b, Reader_H = spec_header C S B N\<rparr>,
        srcs(b := int_data (of_nat B) frames))"
    and "ReadInts \<lparr>Reader_R = b, Reader_H = spec_header C S B N\<rparr> N
         (srcs(b := int_data (of_nat B) frames)) = (Inr frames, srcs(b := []))"
proof -
  let ?h = "spec_header C S B N"
  let ?w = "\<lparr>Writer_W = a, Writer_H = ?h, ctr = 0, numSamples = of_nat N\<rparr>"
  let ?ss = "empty_sinks(a := \<lparr>written = encode_Header ?h, room = None\<rparr>)"
  note p = valid_params_products [OF v]
  from v have bB: "B \<in> {8, 16, 32}" by (simp add: valid_params_def)
  have bps: "BitsPerSample ?h = of_nat B" by (simp add: spec_header_def)
  have bps_in: "(of_nat B :: uint16) \<in> {8, 16, 32}" using bB by auto
  have ub: "unat (of_nat B :: uint16) = B" using bB by auto
  have uc: "unat (Channels ?h) = C"
    using spec_header_fields(1) [OF p(4) bB] .
  show 1: "NewWriter a (of_nat C) (of_nat S) (of_nat B) (of_nat N) empty_sinks = (Inr ?w, ?ss)"
    by (simp add: NewWriter_eq [OF p(1) p(2) p(3)] sink_Write_def empty_sinks_def)
  have "WriteInts ?w frames ?ss =
      (None, ?w\<lparr>ctr := ctr ?w + of_nat (length frames)\<rparr>,
       ?ss(Writer_W ?w := \<lparr>written = written (?ss (Writer_W ?w))
            @ int_data (BitsPerSample (Writer_H ?w)) frames, room = None\<rparr>))"
  proof (rule WriteInts_all)
    show "BitsPerSample (Writer_H ?w) \<in> {8, 16, 32}" using bps_in by (simp add: bps)
    show "room (?ss (Writer_W ?w)) = None" by simp
    show "\<forall>f \<in> set frames. length f = unat (Channels (Writer_H ?w))"
      using fr by (simp add: uc)
    show "sint (ctr ?w) + int (length frames) \<le> sint (numSamples ?w)"
      by (simp add: len sint_of_nat_small [OF p(5)])
  qed
  then show "WriteInts ?w frames ?ss =
       (None, \<lparr>Writer_W = a, Writer_H = ?h, ctr = of_nat N, numSamples = of_nat N\<rparr>,
        empty_sinks(a := \<lparr>written = encode_Header ?h @ int_data (of_nat B) frames,
          room = None\<rparr>))"
    by (simp add: len bps)
  have val: "Validate ?h = None"
    using bB by (intro Validate_spec_header) auto
  show "NewReader b (srcs(b := encode_Header ?h @ int_data (of_nat B) frames)) =
       (Inr \<lparr>Reader_R = b, Reader_H = ?h\<rparr>, srcs(b := int_data (of_nat B) frames))"
    using NewReader_ok [OF val, of "srcs(b := encode_Header ?h @ int_data (of_nat B) frames)" b
        "int_data (of_nat B) frames"]
    by simp
  let ?r = "\<lparr>Reader_R = b, Reader_H = ?h\<rparr>"
  have "ReadInts ?r (length frames) (srcs(b := int_data (of_nat B) frames))
      = (Inr frames, (srcs(b := int_data (of_nat B) frames))(Reader_R ?r := []))"
  proof (rule ReadInts_all)
    show "BitsPerSample (Reader_H ?r) \<in> {8, 16, 32}" using bps_in by (simp add: bps)
    show "(srcs(b := int_data (of_nat B) frames)) (Reader_R ?r)
        = int_data (BitsPerSample (Reader_H ?r)) frames @ []"
      by (simp add: bps)
    show "\<forall>f \<in> set frames. length f = unat (Channels (Reader_H ?r))
       \<and> (\<forall>v \<in> set f. in_range (unat (BitsPerSample (Reader_H ?r))) v)"
      using fr by (simp add: uc bps ub)
  qed
  then show "ReadInts ?r N (srcs(b := int_data (of_nat B) frames)) = (Inr frames, srcs(b := []))"
    by (simp add: len)
qed

lemma float_round_trip:
  assumes v: "valid_params C S 32 N"
    and len: "length frames = N"
    and fr: "\<forall>f \<in> set frames. length f = C \<and> (\<forall>v \<in> set f. widen (narrow v) = v)"
  shows "WriteFloats narrow
           \<lparr>Writer_W = a, Writer_H = spec_header C S 32 N, ctr = 0, numSamples = of_nat N\<rparr>
           frames (empty_sinks(a := \<lparr>written = encode_Header (spec_header C S 32 N), room = None\<rparr>)) =
       (None,
        \<lparr>Writer_W = a, Writer_H = spec_header C S 32 N, ctr = of_nat N, numSamples = of_nat N\<rparr>,
        empty_sinks(a := \<lparr>written = encode_Header (spec_header C S 32 N)
            @ float_data narrow frames, room = None\<rparr>))"
    and "NewReader b (srcs(b := encode_Header (spec_header C S 32 N) @ float_data narrow frames)) =
       (Inr \<lparr>Reader_R = b, Reader_H = spec_header C S 32 N\<rparr>,
        srcs(b := float_data narrow frames))"
    and "ReadFloats widen \<lparr>Reader_R = b, Reader_H = spec_header C S 32 N\<rparr> N
         (srcs(b := float_data narrow frames)) = (Inr frames, srcs(b := []))"
proof -
  let ?h = "spec_header C S 32 N"
  let ?w = "\<lparr>Writer_W = a, Writer_H = ?h, ctr = 0, numSamples = of_nat N\<rparr>"
  let ?ss = "empty_sinks(a := \<lparr>written = encode_Header ?h, room = None\<rparr>)"
  note p = valid_params_products [OF v]
  have bps: "BitsPerSample ?h = 32" by (simp add: spec_header_def)
  have uc: "unat (Channels ?h) = C"
    using spec_header_fields(1) [OF p(4), of 32] by simp
  have "WriteFloats narrow ?w frames ?ss =
      (None, ?w\<lparr>ctr := ctr ?w + of_nat (length frames)\<rparr>,
       ?ss(Writer_W ?w := \<lparr>written = written (?ss (Writer_W ?w))
            @ float_data narrow frames, room = None\<rparr>))"
  proof (rule WriteFloats_all)
    show "BitsPerSample (Writer_H ?w) = 32" by (simp add: bps)
    show "room (?ss (Writer_W ?w)) = None" by simp
    show "\<forall>f \<in> set frames. length f = unat (Channels (Writer_H ?w))"
      using fr by (simp add: uc)
    show "sint (ctr ?w) + int (length frames) \<le> sint (numSamples ?w)"
      by (simp add: len sint_of_nat_small [OF p(5)])
  qed
  then show "WriteFloats narrow ?w frames ?ss =
       (None, \<lparr>Writer_W = a, Writer_H = ?h, ctr = of_nat N, numSamples = of_nat N\<rparr>,
        empty_sinks(a := \<lparr>written = encode_Header ?h @ float_data narrow frames,
          room = None\<rparr>))"
    by (simp add: len)
  have val: "Validate ?h = None"
    by (intro Validate_spec_header) auto
  show "NewReader b (srcs(b := encode_Header ?h @ float_data narrow frames)) =
       (Inr \<lparr>Reader_R = b, Reader_H = ?h\<rparr>, srcs(b := float_data narrow frames))"
    using NewReader_ok [OF val, of "srcs(b := encode_Header ?h @ float_data narrow frames)" b
        "float_data narrow frames"]
    by simp
  let ?r = "\<lparr>Reader_R = b, Reader_H = ?h\<rparr>"
  have "ReadFloats widen ?r (length frames) (srcs(b := float_data narrow frames))
      = (Inr frames, (srcs(b := float_data narrow frames))(Reader_R ?r := []))"
  proof (rule ReadFloats_all)
    show "BitsPerSample (Reader_H ?r) = 32" by (simp add: bps)
    show "(srcs(b := float_data narrow frames)) (Reader_R ?r) = float_data narrow frames @ []"
      by simp
    show "\<forall>f \<in> set frames. length f = unat (Channels (Reader_H ?r))
       \<and> (\<forall>v \<in> set f. widen (narrow v) = v)"
      using fr by (simp add: uc)
  qed
  then show "ReadFloats widen ?r N (srcs(b := float_data narrow frames))
      = (Inr frames, srcs(b := []))"
    by (simp add: len)
qed












lemma PutUint16_minus_1: "PutUint16 (ucast (- 1 :: int64)) = [255, 255]"
proof -
  have m: "(- 1 :: int64) = 18446744073709551615" by simp
  have "(ucast (18446744073709551615 :: int64) :: uint16) = 65535" by simp
  then have "(ucast (- 1 :: int64) :: uint16) = 65535" by (simp only: m)
  then show ?thesis by (simp add: PutUint16_def)
qed

lemma int_data_example:
  "int_data 16 [[0, - 1], [18722, 18724]] = [0, 0, 255, 255, 34, 73, 36, 73]"
  by (simp add: int_data_def encode_ints_def encode_int16s_def PutUint16_minus_1)
     (simp add: PutUint16_def)

lemma float_data_example:
  "float_data id [[0x3F800000]] = [0, 0, 0x80, 0x3F]"
  by (simp add: float_data_def encode_floats_def PutUint32_def)

lemma valid_examples: "valid_params 2 44100 16 2" "valid_params 1 8000 32 1"
  by (simp_all add: valid_params_def)

lemma in_range_examples:
  "in_range 16 0" "in_range 16 (- 1)" "in_range 16 18722" "in_range 16 18724"
  by (simp_all add: in_range_def)



section \<open>Claims about the header written and the round trip\<close>




text \<open>
  Claim C1, as stated, fails: a depth of 24 bits is a valid header parameter (\<open>Validate\<close>
  accepts the header, and \<open>ReadInt\<close> decodes it), but \<open>WriteInt\<close> refuses to write a
  frame for it, so nothing can be read back.
\<close>

theorem round_trip_fails_for_24_bits:
  "Validate (spec_header 1 44100 24 1) = None
   \<and> in_range 24 0
   \<and> NewWriter 0 1 44100 24 1 empty_sinks =
       (Inr \<lparr>Writer_W = 0, Writer_H = spec_header 1 44100 24 1, ctr = 0, numSamples = 1\<rparr>,
        empty_sinks(0 := \<lparr>written = encode_Header (spec_header 1 44100 24 1), room = None\<rparr>))
   \<and> WriteInt \<lparr>Writer_W = 0, Writer_H = spec_header 1 44100 24 1, ctr = 0, numSamples = 1\<rparr> [0]
        (empty_sinks(0 := \<lparr>written = encode_Header (spec_header 1 44100 24 1), room = None\<rparr>)) =
       (Some (UnrecognizedBits 24),
        \<lparr>Writer_W = 0, Writer_H = spec_header 1 44100 24 1, ctr = 0, numSamples = 1\<rparr>,
        empty_sinks(0 := \<lparr>written = encode_Header (spec_header 1 44100 24 1), room = None\<rparr>))"
proof (intro conjI)
  show "Validate (spec_header 1 44100 24 1) = None"
    by (rule Validate_spec_header) simp
  show "in_range 24 0"
    by (simp add: in_range_def)
  have "NewWriter 0 (of_nat 1) (of_nat 44100) (of_nat 24) (of_nat 1) empty_sinks =
       (Inr \<lparr>Writer_W = 0, Writer_H = spec_header 1 44100 24 1, ctr = 0, numSamples = of_nat 1\<rparr>,
        empty_sinks(0 := \<lparr>written = encode_Header (spec_header 1 44100 24 1), room = None\<rparr>))"
    by (subst NewWriter_eq) (simp_all add: sink_Write_def empty_sinks_def)
  then show "NewWriter 0 1 44100 24 1 empty_sinks =
       (Inr \<lparr>Writer_W = 0, Writer_H = spec_header 1 44100 24 1, ctr = 0, numSamples = 1\<rparr>,
        empty_sinks(0 := \<lparr>written = encode_Header (spec_header 1 44100 24 1), room = None\<rparr>))"
    by simp
  show "WriteInt \<lparr>Writer_W = 0, Writer_H = spec_header 1 44100 24 1, ctr = 0, numSamples = 1\<rparr> [0]
        (empty_sinks(0 := \<lparr>written = encode_Header (spec_header 1 44100 24 1), room = None\<rparr>)) =
       (Some (UnrecognizedBits 24),
        \<lparr>Writer_W = 0, Writer_H = spec_header 1 44100 24 1, ctr = 0, numSamples = 1\<rparr>,
        empty_sinks(0 := \<lparr>written = encode_Header (spec_header 1 44100 24 1), room = None\<rparr>))"
    by (simp add: WriteInt_def spec_header_def)
qed

text \<open>
  Claim C1, amended. For header parameters with at least one channel, a depth of 8, 16 or
  32 bits and values that fit their header fields, and \<open>frameCount\<close> frames of
  \<open>channels\<close> values each: \<open>NewWriter\<close> on an empty stream succeeds; if every value is
  representable in the depth, writing the frames with \<open>WriteInt\<close> succeeds, \<open>NewReader\<close>
  on the bytes written succeeds with the same header, \<open>GetChannels\<close>,
  \<open>GetSamplesPerSec\<close>, \<open>GetBitsPerSample\<close> and \<open>GetSampleCount\<close> return the
  parameters, and \<open>frameCount\<close> calls of \<open>ReadInt\<close> return the frames written and
  leave the stream empty. At depth 32 the same holds for \<open>WriteFloat\<close> and \<open>ReadFloat\<close>
  for values that the conversion to \<open>float32\<close> and back leaves unchanged.
\<close>

theorem write_then_read_round_trip:
  assumes "valid_params C S B N"
  shows
    "NewWriter out (of_nat C) (of_nat S) (of_nat B) (of_nat N) empty_sinks =
       (Inr \<lparr>Writer_W = out, Writer_H = spec_header C S B N, ctr = 0, numSamples = of_nat N\<rparr>,
        empty_sinks(out := \<lparr>written = encode_Header (spec_header C S B N), room = None\<rparr>))
     \<and> (length frames = N
          \<and> (\<forall>f \<in> set frames. length f = C \<and> (\<forall>v \<in> set f. in_range B v)) \<longrightarrow>
        WriteInts \<lparr>Writer_W = out, Writer_H = spec_header C S B N, ctr = 0, numSamples = of_nat N\<rparr>
          frames (empty_sinks(out := \<lparr>written = encode_Header (spec_header C S B N), room = None\<rparr>))
          = (None,
             \<lparr>Writer_W = out, Writer_H = spec_header C S B N, ctr = of_nat N, numSamples = of_nat N\<rparr>,
             empty_sinks(out := \<lparr>written = encode_Header (spec_header C S B N)
                 @ int_data (of_nat B) frames, room = None\<rparr>))
        \<and> NewReader inp (srcs(inp := encode_Header (spec_header C S B N) @ int_data (of_nat B) frames))
          = (Inr \<lparr>Reader_R = inp, Reader_H = spec_header C S B N\<rparr>,
             srcs(inp := int_data (of_nat B) frames))
        \<and> ReadInts \<lparr>Reader_R = inp, Reader_H = spec_header C S B N\<rparr> N
             (srcs(inp := int_data (of_nat B) frames))
          = (Inr frames, srcs(inp := [])))
     \<and> GetChannels (spec_header C S B N) = of_nat C
     \<and> GetSamplesPerSec (spec_header C S B N) = of_nat S
     \<and> GetBitsPerSample (spec_header C S B N) = of_nat B
     \<and> GetSampleCount (spec_header C S B N) = Inr (of_nat N)
     \<and> (B = 32 \<and> length fframes = N
          \<and> (\<forall>f \<in> set fframes. length f = C \<and> (\<forall>v \<in> set f. widen (narrow v) = v)) \<longrightarrow>
        WriteFloats narrow
          \<lparr>Writer_W = out, Writer_H = spec_header C S B N, ctr = 0, numSamples = of_nat N\<rparr>
          fframes (empty_sinks(out := \<lparr>written = encode_Header (spec_header C S B N), room = None\<rparr>))
          = (None,
             \<lparr>Writer_W = out, Writer_H = spec_header C S B N, ctr = of_nat N, numSamples = of_nat N\<rparr>,
             empty_sinks(out := \<lparr>written = encode_Header (spec_header C S B N)
                 @ float_data narrow fframes, room = None\<rparr>))
        \<and> NewReader inp (srcs(inp := encode_Header (spec_header C S B N) @ float_data narrow fframes))
          = (Inr \<lparr>Reader_R = inp, Reader_H = spec_header C S B N\<rparr>,
             srcs(inp := float_data narrow fframes))
        \<and> ReadFloats widen \<lparr>Reader_R = inp, Reader_H = spec_header C S B N\<rparr> N
             (srcs(inp := float_data narrow fframes))
          = (Inr fframes, srcs(inp := [])))"
proof (intro conjI impI)
  have ok: "length ([] :: int64 list list) = 0" by simp
  show "NewWriter out (of_nat C) (of_nat S) (of_nat B) (of_nat N) empty_sinks =
       (Inr \<lparr>Writer_W = out, Writer_H = spec_header C S B N, ctr = 0, numSamples = of_nat N\<rparr>,
        empty_sinks(out := \<lparr>written = encode_Header (spec_header C S B N), room = None\<rparr>))"
    using valid_params_products [OF assms]
    by (simp add: NewWriter_eq sink_Write_def empty_sinks_def)
  show "GetChannels (spec_header C S B N) = of_nat C"
    and "GetSamplesPerSec (spec_header C S B N) = of_nat S"
    and "GetBitsPerSample (spec_header C S B N) = of_nat B"
    and "GetSampleCount (spec_header C S B N) = Inr (of_nat N)"
    by (rule spec_header_accessors [OF assms])+
next
  assume h: "length frames = N
          \<and> (\<forall>f \<in> set frames. length f = C \<and> (\<forall>v \<in> set f. in_range B v))"
  then have l: "length frames = N"
    and f: "\<forall>f \<in> set frames. length f = C \<and> (\<forall>v \<in> set f. in_range B v)" by simp_all
  show "WriteInts \<lparr>Writer_W = out, Writer_H = spec_header C S B N, ctr = 0, numSamples = of_nat N\<rparr>
          frames (empty_sinks(out := \<lparr>written = encode_Header (spec_header C S B N), room = None\<rparr>))
          = (None,
             \<lparr>Writer_W = out, Writer_H = spec_header C S B N, ctr = of_nat N, numSamples = of_nat N\<rparr>,
             empty_sinks(out := \<lparr>written = encode_Header (spec_header C S B N)
                 @ int_data (of_nat B) frames, room = None\<rparr>))"
    by (rule int_round_trip(2) [OF assms l f])
  show "NewReader inp (srcs(inp := encode_Header (spec_header C S B N) @ int_data (of_nat B) frames))
          = (Inr \<lparr>Reader_R = inp, Reader_H = spec_header C S B N\<rparr>,
             srcs(inp := int_data (of_nat B) frames))"
    by (rule int_round_trip(3) [OF assms l f])
  show "ReadInts \<lparr>Reader_R = inp, Reader_H = spec_header C S B N\<rparr> N
             (srcs(inp := int_data (of_nat B) frames))
          = (Inr frames, srcs(inp := []))"
    by (rule int_round_trip(4) [OF assms l f])
next
  assume h: "B = 32 \<and> length fframes = N
          \<and> (\<forall>f \<in> set fframes. length f = C \<and> (\<forall>v \<in> set f. widen (narrow v) = v))"
  then have b32: "B = 32" and l: "length fframes = N"
    and f: "\<forall>f \<in> set fframes. length f = C \<and> (\<forall>v \<in> set f. widen (narrow v) = v)"
    by simp_all
  have v: "valid_params C S 32 N" using assms b32 by simp
  show "WriteFloats narrow
          \<lparr>Writer_W = out, Writer_H = spec_header C S B N, ctr = 0, numSamples = of_nat N\<rparr>
          fframes (empty_sinks(out := \<lparr>written = encode_Header (spec_header C S B N), room = None\<rparr>))
          = (None,
             \<lparr>Writer_W = out, Writer_H = spec_header C S B N, ctr = of_nat N, numSamples = of_nat N\<rparr>,
             empty_sinks(out := \<lparr>written = encode_Header (spec_header C S B N)
                 @ float_data narrow fframes, room = None\<rparr>))"
    unfolding b32 by (rule float_round_trip(1) [OF v l f])
  show "NewReader inp (srcs(inp := encode_Header (spec_header C S B N) @ float_data narrow fframes))
          = (Inr \<lparr>Reader_R = inp, Reader_H = spec_header C S B N\<rparr>,
             srcs(inp := float_data narrow fframes))"
    unfolding b32 by (rule float_round_trip(2) [OF v l f])
  show "ReadFloats widen \<lparr>Reader_R = inp, Reader_H = spec_header C S B N\<rparr> N
             (srcs(inp := float_data narrow fframes))
          = (Inr fframes, srcs(inp := []))"
    unfolding b32 by (rule float_round_trip(3) [OF v l f])
qed

text \<open>
  The first two frames of the test data, \<open>(0, -1)\<close> and \<open>(18722, 18724)\<close>, at 16
  bits, and one frame of one 32-bit pattern.
\<close>

theorem write_then_read_round_trip_witness:
  "WriteInts \<lparr>Writer_W = 0, Writer_H = spec_header 2 44100 16 2, ctr = 0, numSamples = 2\<rparr>
      [[0, - 1], [18722, 18724]]
      (empty_sinks(0 := \<lparr>written = encode_Header (spec_header 2 44100 16 2), room = None\<rparr>))
     = (None, \<lparr>Writer_W = 0, Writer_H = spec_header 2 44100 16 2, ctr = 2, numSamples = 2\<rparr>,
        empty_sinks(0 := \<lparr>written = encode_Header (spec_header 2 44100 16 2)
            @ [0, 0, 255, 255, 34, 73, 36, 73], room = None\<rparr>))
   \<and> NewReader 0 ((\<lambda>_. [])(0 := encode_Header (spec_header 2 44100 16 2)
            @ [0, 0, 255, 255, 34, 73, 36, 73]))
     = (Inr \<lparr>Reader_R = 0, Reader_H = spec_header 2 44100 16 2\<rparr>,
        (\<lambda>_. [])(0 := [0, 0, 255, 255, 34, 73, 36, 73]))
   \<and> ReadInts \<lparr>Reader_R = 0, Reader_H = spec_header 2 44100 16 2\<rparr> 2
        ((\<lambda>_. [])(0 := [0, 0, 255, 255, 34, 73, 36, 73]))
     = (Inr [[0, - 1], [18722, 18724]], (\<lambda>_. [])(0 := []))
   \<and> GetSampleCount (spec_header 2 44100 16 2) = Inr 2
   \<and> ReadFloats id \<lparr>Reader_R = 0, Reader_H = spec_header 1 8000 32 1\<rparr> 1
        ((\<lambda>_. [])(0 := [0, 0, 0x80, 0x3F]))
     = (Inr [[0x3F800000]], (\<lambda>_. [])(0 := []))"
proof -
  note t1 = write_then_read_round_trip [OF valid_examples(1),
      where frames = "[[0, - 1], [18722, 18724]]" and out = 0 and inp = 0 and srcs = "\<lambda>_. []"
      and fframes = "[] :: uint32 list list" and narrow = id and widen = id]
  note t2 = write_then_read_round_trip [OF valid_examples(2),
      where frames = "[]" and out = 0 and inp = 0 and srcs = "\<lambda>_. []"
      and fframes = "[[0x3F800000 :: uint32]]" and narrow = id and widen = id]
  have i: "WriteInts \<lparr>Writer_W = 0, Writer_H = spec_header 2 44100 16 2, ctr = 0, numSamples = 2\<rparr>
      [[0, - 1], [18722, 18724]]
      (empty_sinks(0 := \<lparr>written = encode_Header (spec_header 2 44100 16 2), room = None\<rparr>))
     = (None, \<lparr>Writer_W = 0, Writer_H = spec_header 2 44100 16 2, ctr = 2, numSamples = 2\<rparr>,
        empty_sinks(0 := \<lparr>written = encode_Header (spec_header 2 44100 16 2)
            @ [0, 0, 255, 255, 34, 73, 36, 73], room = None\<rparr>))
   \<and> NewReader 0 ((\<lambda>_. [])(0 := encode_Header (spec_header 2 44100 16 2)
            @ [0, 0, 255, 255, 34, 73, 36, 73]))
     = (Inr \<lparr>Reader_R = 0, Reader_H = spec_header 2 44100 16 2\<rparr>,
        (\<lambda>_. [])(0 := [0, 0, 255, 255, 34, 73, 36, 73]))
   \<and> ReadInts \<lparr>Reader_R = 0, Reader_H = spec_header 2 44100 16 2\<rparr> 2
        ((\<lambda>_. [])(0 := [0, 0, 255, 255, 34, 73, 36, 73]))
     = (Inr [[0, - 1], [18722, 18724]], (\<lambda>_. [])(0 := []))
   \<and> GetSampleCount (spec_header 2 44100 16 2) = Inr 2"
    using t1 by (simp add: in_range_examples int_data_example)
  have f: "ReadFloats id \<lparr>Reader_R = 0, Reader_H = spec_header 1 8000 32 1\<rparr> 1
        ((\<lambda>_. [])(0 := [0, 0, 0x80, 0x3F]))
     = (Inr [[0x3F800000]], (\<lambda>_. [])(0 := []))"
    using t2 by (simp add: float_data_example)
  show ?thesis
    using i f by blast
qed

end
